theory Spec2Isabelle
  imports Complex_Main
begin

section \<open>Errors\<close>

text \<open>
  The exceptions the beamformer module can raise. \<open>NotANumber\<close> is not an exception:
  it stands for a result that numpy fills with \<open>nan\<close> without raising (a division of
  zeros by a zero frame count); exact arithmetic has no such value.
\<close>

datatype error = ValueError | LinAlgError | AxisError | IndexError | ZeroDivisionError | NotANumber

section \<open>N-dimensional arrays\<close>

text \<open>
  An array is its shape and its entries, read by a full index (one position per axis).
  Only the entries at the valid indices of the shape belong to the array, and two arrays
  are compared there (\<open>array_equal\<close>). All arithmetic is exact: \<open>real\<close> stands for
  float64, \<open>complex\<close> for complex128.
\<close>

record 'a ndarray =
  shape :: "nat list"
  elem :: "nat list \<Rightarrow> 'a"

definition ndim :: "'a ndarray \<Rightarrow> nat" where
  "ndim a = length (shape a)"

definition valid :: "nat list \<Rightarrow> nat list \<Rightarrow> bool" where
  "valid sh idx = list_all2 (<) idx sh"

fun indices :: "nat list \<Rightarrow> nat list list" where
  "indices [] = [[]]"
| "indices (n # ns) = concat (map (\<lambda>i. map ((#) i) (indices ns)) [0..<n])"

definition tabulate :: "nat list \<Rightarrow> (nat list \<Rightarrow> 'a) \<Rightarrow> 'a ndarray" where
  "tabulate sh f = \<lparr>shape = sh, elem = f\<rparr>"

definition array_equal :: "'a ndarray \<Rightarrow> 'a ndarray \<Rightarrow> bool" where
  "array_equal a b =
     (shape a = shape b \<and> list_all (\<lambda>idx. elem a idx = elem b idx) (indices (shape a)))"

text \<open>A Python axis number may be negative; it counts from the end then.\<close>

definition normalize_axis :: "int \<Rightarrow> nat \<Rightarrow> error + nat" where
  "normalize_axis axis n =
     (if - int n \<le> axis \<and> axis < int n
      then Inr (nat (if axis < 0 then axis + int n else axis))
      else Inl AxisError)"

subsection \<open>Broadcasting\<close>

text \<open>
  Two shapes are aligned at their last axis; an axis of length 1 stretches to the
  other's length, any other mismatch is a ValueError.
\<close>

fun broadcast_rev :: "nat list \<Rightarrow> nat list \<Rightarrow> nat list option" where
  "broadcast_rev [] ys = Some ys"
| "broadcast_rev (x # xs) [] = Some (x # xs)"
| "broadcast_rev (x # xs) (y # ys) =
     (if x = y \<or> y = 1 then map_option ((#) x) (broadcast_rev xs ys)
      else if x = 1 then map_option ((#) y) (broadcast_rev xs ys)
      else None)"

definition broadcast :: "nat list \<Rightarrow> nat list \<Rightarrow> nat list option" where
  "broadcast s1 s2 = map_option rev (broadcast_rev (rev s1) (rev s2))"

text \<open>
  \<open>bidx sh idx\<close> is the entry of an operand of shape \<open>sh\<close> that takes part at position
  \<open>idx\<close> of the broadcast result: the two are aligned at the last axis, leading axes
  the operand lacks are dropped, and an axis of length 1 is always read at 0.
\<close>

definition bidx :: "nat list \<Rightarrow> nat list \<Rightarrow> nat list" where
  "bidx sh idx = rev (map2 (\<lambda>n i. if n = 1 then 0 else i) (rev sh) (rev idx))"

definition np_broadcast2 ::
  "('a \<Rightarrow> 'b \<Rightarrow> 'c) \<Rightarrow> 'a ndarray \<Rightarrow> 'b ndarray \<Rightarrow> error + 'c ndarray" where
  "np_broadcast2 f a b =
     (case broadcast (shape a) (shape b) of
        None \<Rightarrow> Inl ValueError
      | Some sh \<Rightarrow>
          Inr (tabulate sh (\<lambda>idx. f (elem a (bidx (shape a) idx)) (elem b (bidx (shape b) idx)))))"

text \<open>An in-place operation \<open>a op= b\<close>: the result has to fit into \<open>a\<close>.\<close>

definition np_inplace2 ::
  "('a \<Rightarrow> 'b \<Rightarrow> 'a) \<Rightarrow> 'a ndarray \<Rightarrow> 'b ndarray \<Rightarrow> error + 'a ndarray" where
  "np_inplace2 f a b =
     (if broadcast (shape a) (shape b) = Some (shape a)
      then Inr (tabulate (shape a) (\<lambda>idx. f (elem a idx) (elem b (bidx (shape b) idx))))
      else Inl ValueError)"

subsection \<open>The numpy operations the module uses\<close>

definition np_map :: "('a \<Rightarrow> 'b) \<Rightarrow> 'a ndarray \<Rightarrow> 'b ndarray" where
  "np_map f a = tabulate (shape a) (\<lambda>idx. f (elem a idx))"

definition np_conj :: "complex ndarray \<Rightarrow> complex ndarray" where
  "np_conj a = np_map cnj a"

fun index_of :: "'a list \<Rightarrow> 'a \<Rightarrow> nat" where
  "index_of [] y = 0"
| "index_of (x # xs) y = (if x = y then 0 else Suc (index_of xs y))"

text \<open>
  \<open>a.transpose(axes)\<close>: axis \<open>i\<close> of the result is axis \<open>axes[i]\<close> of \<open>a\<close>. The axes
  must number every axis of \<open>a\<close> once.
\<close>

definition np_transpose :: "'a ndarray \<Rightarrow> int list \<Rightarrow> error + 'a ndarray" where
  "np_transpose a axes =
     (let n = ndim a in
      if length axes \<noteq> n then Inl ValueError
      else if \<exists>ax \<in> set axes. \<not> (- int n \<le> ax \<and> ax < int n) then Inl AxisError
      else
        let perm = map (\<lambda>ax. nat (if ax < 0 then ax + int n else ax)) axes in
        if \<not> distinct perm then Inl ValueError
        else Inr (tabulate (map (\<lambda>k. shape a ! k) perm)
                    (\<lambda>idx. elem a (map (\<lambda>j. idx ! index_of perm j) [0..<n]))))"

text \<open>\<open>a.T\<close> reverses the axes. It is a view: it reads the entries of \<open>a\<close> itself.\<close>

definition np_T :: "'a ndarray \<Rightarrow> 'a ndarray" where
  "np_T a = \<lparr>shape = rev (shape a), elem = (\<lambda>idx. elem a (rev idx))\<rparr>"

definition np_expand_dims :: "'a ndarray \<Rightarrow> int \<Rightarrow> error + 'a ndarray" where
  "np_expand_dims a axis =
     (case normalize_axis axis (ndim a + 1) of
        Inl e \<Rightarrow> Inl e
      | Inr k \<Rightarrow>
          Inr (tabulate (take k (shape a) @ 1 # drop k (shape a))
                 (\<lambda>idx. elem a (take k idx @ drop (Suc k) idx))))"

definition np_sum_keepdims :: "real ndarray \<Rightarrow> int \<Rightarrow> error + real ndarray" where
  "np_sum_keepdims a axis =
     (case normalize_axis axis (ndim a) of
        Inl e \<Rightarrow> Inl e
      | Inr k \<Rightarrow>
          Inr (tabulate ((shape a)[k := 1])
                 (\<lambda>idx. \<Sum>t\<leftarrow>[0..<shape a ! k]. elem a (idx[k := t]))))"

text \<open>\<open>np.rollaxis(a, axis, start)\<close> moves one axis in front of position \<open>start\<close>.\<close>

definition np_rollaxis :: "'a ndarray \<Rightarrow> int \<Rightarrow> int \<Rightarrow> error + 'a ndarray" where
  "np_rollaxis a axis start =
     (let n = ndim a in
      case normalize_axis axis n of
        Inl e \<Rightarrow> Inl e
      | Inr ax \<Rightarrow>
          let st = (if start < 0 then start + int n else start) in
          if \<not> (0 \<le> st \<and> st < int n + 1) then Inl AxisError
          else
            let st' = (if int ax < st then st - 1 else st) in
            if int ax = st' then Inr a
            else
              let rest = filter (\<lambda>k. k \<noteq> ax) [0..<n];
                  axes = take (nat st') rest @ ax # drop (nat st') rest
              in np_transpose a (map int axes))"

text \<open>The leading axes of a shape, without its last two.\<close>

definition lead2 :: "nat list \<Rightarrow> nat list" where
  "lead2 sh = take (length sh - 2) sh"

text \<open>
  \<open>np.einsum('...dt,...et->...de', a, b)\<close>. The leading axes broadcast, and so does
  the summed axis \<open>t\<close>.
\<close>

definition einsum_dt_et :: "complex ndarray \<Rightarrow> complex ndarray \<Rightarrow> error + complex ndarray" where
  "einsum_dt_et a b =
     (if ndim a < 2 \<or> ndim b < 2 then Inl ValueError
      else
        case (broadcast (lead2 (shape a)) (lead2 (shape b)),
              broadcast [last (shape a)] [last (shape b)]) of
          (Some pre, Some [T]) \<Rightarrow>
            Inr (tabulate (pre @ [shape a ! (ndim a - 2), shape b ! (ndim b - 2)])
                   (\<lambda>idx. let p = take (length pre) idx;
                              d = idx ! length pre;
                              e = idx ! Suc (length pre)
                          in \<Sum>t\<leftarrow>[0..<T]. elem a (bidx (shape a) (p @ [d, t])) *
                                            elem b (bidx (shape b) (p @ [e, t]))))
        | _ \<Rightarrow> Inl ValueError)"

text \<open>\<open>np.einsum('...kt,...dt,...et->...kde', m, a, b)\<close> with a real first operand.\<close>

definition einsum_kt_dt_et ::
  "real ndarray \<Rightarrow> complex ndarray \<Rightarrow> complex ndarray \<Rightarrow> error + complex ndarray" where
  "einsum_kt_dt_et m a b =
     (if ndim m < 2 \<or> ndim a < 2 \<or> ndim b < 2 then Inl ValueError
      else
        case (broadcast (lead2 (shape a)) (lead2 (shape b)),
              broadcast [last (shape a)] [last (shape b)]) of
          (Some pre0, Some [T0]) \<Rightarrow>
            (case (broadcast (lead2 (shape m)) pre0, broadcast [last (shape m)] [T0]) of
               (Some pre, Some [T]) \<Rightarrow>
                 Inr (tabulate (pre @ [shape m ! (ndim m - 2), shape a ! (ndim a - 2),
                                       shape b ! (ndim b - 2)])
                        (\<lambda>idx. let p = take (length pre) idx;
                                   k = idx ! length pre;
                                   d = idx ! Suc (length pre);
                                   e = idx ! Suc (Suc (length pre))
                               in \<Sum>t\<leftarrow>[0..<T]. complex_of_real (elem m (bidx (shape m) (p @ [k, t]))) *
                                                 elem a (bidx (shape a) (p @ [d, t])) *
                                                 elem b (bidx (shape b) (p @ [e, t]))))
             | _ \<Rightarrow> Inl ValueError)
        | _ \<Rightarrow> Inl ValueError)"

section \<open>Power spectral density matrix\<close>

text \<open>
  A mask is a boolean or a floating-point array. The estimator normalises a mask with
  \<open>mask /= ...\<close>, which writes into the array the caller passed; the function below
  therefore returns, next to its result, the caller's mask as it is after the call.
\<close>

datatype mask = BoolMask "bool ndarray" | FloatMask "real ndarray"

definition asfarray :: "bool ndarray \<Rightarrow> real ndarray" where
  "asfarray b = tabulate (shape b) (\<lambda>idx. if elem b idx then 1 else 0)"

text \<open>\<open>mask /= np.maximum(np.sum(mask, axis=time_dim, keepdims=True), 1e-10)\<close>\<close>

definition normalize_mask :: "real ndarray \<Rightarrow> int \<Rightarrow> error + real ndarray" where
  "normalize_mask m time_dim =
     (case np_sum_keepdims m time_dim of
        Inl e \<Rightarrow> Inl e
      | Inr s \<Rightarrow> np_inplace2 (/) m (np_map (\<lambda>x. max x (1 / 10 ^ 10)) s))"

text \<open>\<open>psd /= observation.shape[-1]\<close>: entries \<open>0 / 0\<close> are \<open>nan\<close>.\<close>

definition divide_by_frames :: "complex ndarray \<Rightarrow> nat \<Rightarrow> error + complex ndarray" where
  "divide_by_frames psd frames =
     (if frames = 0 \<and> 0 \<notin> set (shape psd) then Inl NotANumber
      else Inr (np_map (\<lambda>x. x / of_nat frames) psd))"

text \<open>The estimator after the mask has been normalised.\<close>

definition masked_psd ::
  "complex ndarray \<Rightarrow> real ndarray \<Rightarrow> int \<Rightarrow> int \<Rightarrow> error + complex ndarray" where
  "masked_psd observation m source_dim time_dim =
     (if ndim m + 1 = ndim observation then
        (case np_expand_dims m (- 2) of
           Inl e \<Rightarrow> Inl e
         | Inr m' \<Rightarrow>
             (case np_broadcast2 (\<lambda>w x. complex_of_real w * x) m' observation of
                Inl e \<Rightarrow> Inl e
              | Inr mo \<Rightarrow> einsum_dt_et mo (np_conj observation)))
      else
        let n = int (ndim observation);
            mask_transpose = filter (\<lambda>i. i \<notin> set [source_dim, time_dim]) [- n..-1] @
                             [source_dim, time_dim]
        in case np_transpose m mask_transpose of
             Inl e \<Rightarrow> Inl e
           | Inr m' \<Rightarrow>
               (case einsum_kt_dt_et m' observation (np_conj observation) of
                  Inl e \<Rightarrow> Inl e
                | Inr psd \<Rightarrow>
                    if source_dim < - 2 then np_rollaxis psd (- 3) (source_dim mod n)
                    else Inr psd))"

text \<open>The estimator after the observation has been brought to (..., sensors, frames).\<close>

definition psd_transposed ::
  "complex ndarray \<Rightarrow> mask option \<Rightarrow> int \<Rightarrow> int \<Rightarrow> mask option \<times> (error + complex ndarray)" where
  "psd_transposed obs mask_in source_dim time_dim =
     (case mask_in of
        None \<Rightarrow>
          (case einsum_dt_et obs (np_conj obs) of
             Inl e \<Rightarrow> (None, Inl e)
           | Inr psd \<Rightarrow> (None, divide_by_frames psd (last (shape obs))))
      | Some (BoolMask b) \<Rightarrow>
          (case normalize_mask (asfarray b) time_dim of
             Inl e \<Rightarrow> (mask_in, Inl e)
           | Inr m \<Rightarrow> (mask_in, masked_psd obs m source_dim time_dim))
      | Some (FloatMask m0) \<Rightarrow>
          (case normalize_mask m0 time_dim of
             Inl e \<Rightarrow> (mask_in, Inl e)
           | Inr m \<Rightarrow> (Some (FloatMask m), masked_psd obs m source_dim time_dim)))"

definition get_power_spectral_density_matrix ::
  "complex ndarray \<Rightarrow> mask option \<Rightarrow> int \<Rightarrow> int \<Rightarrow> int \<Rightarrow>
   mask option \<times> (error + complex ndarray)" where
  "get_power_spectral_density_matrix observation mask_in sensor_dim0 source_dim0 time_dim0 =
     (let n = int (ndim observation) in
      if n = 0 then (mask_in, Inl ZeroDivisionError)
      else
        let sensor_dim = sensor_dim0 mod n - n;
            source_dim = source_dim0 mod n - n;
            time_dim = time_dim0 mod n - n;
            obs_transpose = filter (\<lambda>i. i \<notin> set [sensor_dim, time_dim]) [- n..-1] @
                            [sensor_dim, time_dim]
        in case np_transpose observation obs_transpose of
             Inl e \<Rightarrow> (mask_in, Inl e)
           | Inr obs \<Rightarrow> psd_transposed obs mask_in source_dim time_dim)"

section \<open>Solvers of the linear-algebra library\<close>

text \<open>
  \<open>numpy.linalg.solve\<close>, \<open>numpy.linalg.eigh\<close>, \<open>scipy.linalg.eigh\<close> and
  \<open>scipy.linalg.eig\<close> belong to libraries, not to this module. Each is a parameter of
  the functions below: it gets one matrix (a list of rows) and returns its result or the
  exception it raises. The stacking of many such problems in one array is modelled here.
\<close>

type_synonym cvec = "complex list"
type_synonym cmat = "complex list list"
type_synonym solver = "cmat \<Rightarrow> cvec \<Rightarrow> error + cvec"
type_synonym eigh_solver = "cmat \<Rightarrow> error + (real list \<times> cmat)"
type_synonym gen_eigh_solver = "cmat \<Rightarrow> cmat \<Rightarrow> error + (real list \<times> cmat)"
type_synonym gen_eig_solver = "cmat \<Rightarrow> cmat \<Rightarrow> error + (complex list \<times> cmat)"

definition mat_at :: "complex ndarray \<Rightarrow> nat list \<Rightarrow> cmat" where
  "mat_at a p =
     map (\<lambda>i. map (\<lambda>j. elem a (p @ [i, j])) [0..<last (shape a)]) [0..<shape a ! (ndim a - 2)]"

definition vec_at :: "complex ndarray \<Rightarrow> nat list \<Rightarrow> cvec" where
  "vec_at a p = map (\<lambda>d. elem a (p @ [d])) [0..<last (shape a)]"

definition col_at :: "complex ndarray \<Rightarrow> nat list \<Rightarrow> nat \<Rightarrow> cvec" where
  "col_at a p j = map (\<lambda>i. elem a (p @ [i, j])) [0..<shape a ! (ndim a - 2)]"

fun first_error :: "(error + 'a) list \<Rightarrow> error option" where
  "first_error [] = None"
| "first_error (Inl e # rs) = Some e"
| "first_error (Inr x # rs) = first_error rs"

definition entry :: "error + cvec \<Rightarrow> nat \<Rightarrow> complex" where
  "entry r d = (case r of Inl e \<Rightarrow> 0 | Inr x \<Rightarrow> x ! d)"

text \<open>
  \<open>numpy.linalg.solve(a, b)\<close> on stacks. When \<open>b\<close> has one axis less than \<open>a\<close> it is a
  stack of vectors, otherwise a stack of matrices solved column by column. One failing
  system fails the call.
\<close>

definition np_solve :: "solver \<Rightarrow> complex ndarray \<Rightarrow> complex ndarray \<Rightarrow> error + complex ndarray" where
  "np_solve solve a b =
     (if ndim a < 2 then Inl LinAlgError
      else if shape a ! (ndim a - 2) \<noteq> last (shape a) then Inl LinAlgError
      else
        let m = last (shape a) in
        if ndim b = ndim a - 1 then
          (if last (shape b) \<noteq> m then Inl ValueError
           else
             case broadcast (lead2 (shape a)) (butlast (shape b)) of
               None \<Rightarrow> Inl ValueError
             | Some loop \<Rightarrow>
                 let sol = (\<lambda>p. solve (mat_at a (bidx (lead2 (shape a)) p))
                                       (vec_at b (bidx (butlast (shape b)) p)))
                 in (case first_error (map sol (indices loop)) of
                       Some e \<Rightarrow> Inl e
                     | None \<Rightarrow>
                         Inr (tabulate (loop @ [m])
                                (\<lambda>idx. entry (sol (butlast idx)) (last idx)))))
        else
          (if ndim b < 2 then Inl ValueError
           else if shape b ! (ndim b - 2) \<noteq> m then Inl ValueError
           else
             case broadcast (lead2 (shape a)) (lead2 (shape b)) of
               None \<Rightarrow> Inl ValueError
             | Some loop \<Rightarrow>
                 let sol = (\<lambda>q. solve (mat_at a (bidx (lead2 (shape a)) (butlast q)))
                                       (col_at b (bidx (lead2 (shape b)) (butlast q)) (last q)))
                 in (case first_error (map sol (indices (loop @ [last (shape b)]))) of
                       Some e \<Rightarrow> Inl e
                     | None \<Rightarrow>
                         Inr (tabulate (loop @ [m, last (shape b)])
                                (\<lambda>idx. entry (sol (take (length loop) idx @ [last idx]))
                                              (idx ! length loop))))))"

text \<open>\<open>np.argmax\<close> returns the first position of the greatest entry.\<close>

fun argmax_from :: "('a \<Rightarrow> 'a \<Rightarrow> bool) \<Rightarrow> nat \<Rightarrow> 'a \<Rightarrow> nat \<Rightarrow> 'a list \<Rightarrow> nat" where
  "argmax_from lt best v i [] = best"
| "argmax_from lt best v i (x # xs) =
     (if lt v x then argmax_from lt i x (Suc i) xs else argmax_from lt best v (Suc i) xs)"

fun np_argmax :: "('a \<Rightarrow> 'a \<Rightarrow> bool) \<Rightarrow> 'a list \<Rightarrow> error + nat" where
  "np_argmax lt [] = Inl ValueError"
| "np_argmax lt (x # xs) = Inr (argmax_from lt 0 x 1 xs)"

text \<open>numpy orders complex numbers by real part, then by imaginary part.\<close>

definition complex_less :: "complex \<Rightarrow> complex \<Rightarrow> bool" where
  "complex_less z w = (Re z < Re w \<or> (Re z = Re w \<and> Im z < Im w))"

text \<open>\<open>eigenvecs[:, j]\<close>\<close>

definition column :: "cmat \<Rightarrow> nat \<Rightarrow> error + cvec" where
  "column vecs j =
     (if list_all (\<lambda>row. j < length row) vecs then Inr (map (\<lambda>row. row ! j) vecs)
      else Inl IndexError)"

text \<open>\<open>eigenvecs[:, np.argmax(eigenvals)]\<close>\<close>

definition principal_eigenvector :: "('v \<Rightarrow> 'v \<Rightarrow> bool) \<Rightarrow> 'v list \<times> cmat \<Rightarrow> error + cvec" where
  "principal_eigenvector lt r =
     (case np_argmax lt (fst r) of Inl e \<Rightarrow> Inl e | Inr j \<Rightarrow> column (snd r) j)"

section \<open>Beamforming vectors\<close>

text \<open>
  \<open>get_pca_vector\<close> flattens the leading axes, decomposes every matrix, picks the
  eigenvector of the greatest eigenvalue and restores the leading axes; the model keeps
  the leading index instead of flattening and restoring it.
\<close>

definition get_pca_vector :: "eigh_solver \<Rightarrow> complex ndarray \<Rightarrow> error + complex ndarray" where
  "get_pca_vector eigh target_psd_matrix =
     (let sh = shape target_psd_matrix; n = length sh in
      if n = 0 then Inl LinAlgError
      else if n = 1 then
        (if sh = [0] then Inl ValueError else if sh = [1] then Inl IndexError else Inl LinAlgError)
      else if sh ! (n - 2) * last sh = 0 then Inl ValueError
      else if sh ! (n - 2) \<noteq> last sh then Inl LinAlgError
      else
        let decomp = (\<lambda>p. eigh (mat_at target_psd_matrix p)) in
        case first_error (map decomp (indices (lead2 sh))) of
          Some e \<Rightarrow> Inl e
        | None \<Rightarrow>
            let sel = (\<lambda>p. case decomp p of Inl e \<Rightarrow> Inl e | Inr r \<Rightarrow> principal_eigenvector (<) r) in
            (case first_error (map sel (indices (lead2 sh))) of
               Some e \<Rightarrow> Inl e
             | None \<Rightarrow>
                 if list_all (\<lambda>p. case sel p of Inl e \<Rightarrow> False | Inr v \<Rightarrow> length v = last sh)
                      (indices (lead2 sh))
                 then Inr (tabulate (butlast sh) (\<lambda>idx. entry (sel (butlast idx)) (last idx)))
                 else Inl ValueError))"

text \<open>\<open>np.einsum('...d,...d->...', a, b)\<close>\<close>

definition einsum_d_d :: "complex ndarray \<Rightarrow> complex ndarray \<Rightarrow> error + complex ndarray" where
  "einsum_d_d a b =
     (if ndim a < 1 \<or> ndim b < 1 then Inl ValueError
      else
        case (broadcast (butlast (shape a)) (butlast (shape b)),
              broadcast [last (shape a)] [last (shape b)]) of
          (Some pre, Some [D]) \<Rightarrow>
            Inr (tabulate pre
                   (\<lambda>p. \<Sum>d\<leftarrow>[0..<D]. elem a (bidx (shape a) (p @ [d])) *
                                       elem b (bidx (shape b) (p @ [d]))))
        | _ \<Rightarrow> Inl ValueError)"

definition np_swapaxes_last2 :: "'a ndarray \<Rightarrow> error + 'a ndarray" where
  "np_swapaxes_last2 a =
     (let n = ndim a in
      if n < 2 then Inl AxisError
      else Inr (tabulate (lead2 (shape a) @ [last (shape a), shape a ! (n - 2)])
                  (\<lambda>idx. elem a (take (n - 2) idx @ [last idx, idx ! (n - 2)]))))"

text \<open>
  The loop \<open>while atf_vector.ndim > noise_psd_matrix.ndim - 1\<close>, which puts axes of
  length 1 in front of the noise matrix.
\<close>

function expand_noise :: "nat \<Rightarrow> complex ndarray \<Rightarrow> complex ndarray" where
  "expand_noise atf_ndim noise =
     (if int atf_ndim > int (ndim noise) - 1
      then expand_noise atf_ndim
             (tabulate (1 # shape noise) (\<lambda>idx. elem noise (tl idx)))
      else noise)"
  by pat_completeness auto
termination
  by (relation "measure (\<lambda>(k, a). Suc k - ndim a)") (auto simp: ndim_def tabulate_def)

text \<open>\<open>0.5 * (noise_psd_matrix + np.conj(noise_psd_matrix.swapaxes(-1, -2)))\<close>\<close>

definition hermitize :: "complex ndarray \<Rightarrow> error + complex ndarray" where
  "hermitize noise =
     (case np_swapaxes_last2 noise of
        Inl e \<Rightarrow> Inl e
      | Inr sw \<Rightarrow>
          (case np_broadcast2 (+) noise (np_conj sw) of
             Inl e \<Rightarrow> Inl e
           | Inr s \<Rightarrow> Inr (np_map (\<lambda>x. (1 / 2) * x) s)))"

definition mvdr_numerator :: "solver \<Rightarrow> complex ndarray \<Rightarrow> complex ndarray \<Rightarrow> error + complex ndarray" where
  "mvdr_numerator solve atf_vector noise_psd_matrix =
     (case hermitize (expand_noise (ndim atf_vector) noise_psd_matrix) of
        Inl e \<Rightarrow> Inl e
      | Inr noise \<Rightarrow> np_solve solve noise atf_vector)"

definition mvdr_denominator :: "solver \<Rightarrow> complex ndarray \<Rightarrow> complex ndarray \<Rightarrow> error + complex ndarray" where
  "mvdr_denominator solve atf_vector noise_psd_matrix =
     (case mvdr_numerator solve atf_vector noise_psd_matrix of
        Inl e \<Rightarrow> Inl e
      | Inr numerator \<Rightarrow> einsum_d_d (np_conj atf_vector) numerator)"

text \<open>
  The division is the field's: where a denominator is 0 numpy stores \<open>inf\<close> or \<open>nan\<close>
  without raising, and nothing is stated about such an entry.
\<close>

definition get_mvdr_vector :: "solver \<Rightarrow> complex ndarray \<Rightarrow> complex ndarray \<Rightarrow> error + complex ndarray" where
  "get_mvdr_vector solve atf_vector noise_psd_matrix =
     (case mvdr_numerator solve atf_vector noise_psd_matrix of
        Inl e \<Rightarrow> Inl e
      | Inr numerator \<Rightarrow>
          (case mvdr_denominator solve atf_vector noise_psd_matrix of
             Inl e \<Rightarrow> Inl e
           | Inr denominator \<Rightarrow>
               (case np_expand_dims denominator (- 1) of
                  Inl e \<Rightarrow> Inl e
                | Inr den \<Rightarrow> np_broadcast2 (/) numerator den)))"

text \<open>
  One bin of \<open>get_gev_vector\<close>: the Hermitian solver first, the general solver when
  that raises a LinAlgError, then the eigenvector of the greatest eigenvalue.
\<close>

definition gev_bin :: "gen_eigh_solver \<Rightarrow> gen_eig_solver \<Rightarrow> cmat \<Rightarrow> cmat \<Rightarrow> error + cvec" where
  "gev_bin eigh eig target noise =
     (case eigh target noise of
        Inr r \<Rightarrow> principal_eigenvector (<) r
      | Inl LinAlgError \<Rightarrow>
          (case eig target noise of Inl e \<Rightarrow> Inl e | Inr r \<Rightarrow> principal_eigenvector complex_less r)
      | Inl e \<Rightarrow> Inl e)"

text \<open>\<open>beamforming_vector[f, :] = v\<close> into a row of length \<open>sensors\<close>\<close>

definition assign_row :: "nat \<Rightarrow> cvec \<Rightarrow> error + cvec" where
  "assign_row sensors v =
     (if length v = sensors then Inr v
      else if length v = 1 then Inr (replicate sensors (hd v))
      else Inl ValueError)"

text \<open>\<open>a[f, :, :]\<close> of a three-dimensional array\<close>

definition slice_bin :: "complex ndarray \<Rightarrow> nat \<Rightarrow> error + cmat" where
  "slice_bin a f =
     (if ndim a < 3 then Inl IndexError
      else if ndim a > 3 then Inl ValueError
      else if f < hd (shape a) then Inr (mat_at a [f])
      else Inl IndexError)"

fun gev_loop ::
  "gen_eigh_solver \<Rightarrow> gen_eig_solver \<Rightarrow> complex ndarray \<Rightarrow> complex ndarray \<Rightarrow> nat \<Rightarrow>
   nat list \<Rightarrow> error + cvec list" where
  "gev_loop eigh eig target noise sensors [] = Inr []"
| "gev_loop eigh eig target noise sensors (f # fs) =
     (case slice_bin noise f of
        Inl e \<Rightarrow> Inl e
      | Inr nf \<Rightarrow>
          (case gev_bin eigh eig (mat_at target [f]) nf of
             Inl e \<Rightarrow> Inl e
           | Inr v \<Rightarrow>
               (case assign_row sensors v of
                  Inl e \<Rightarrow> Inl e
                | Inr row \<Rightarrow>
                    (case gev_loop eigh eig target noise sensors fs of
                       Inl e \<Rightarrow> Inl e
                     | Inr rows \<Rightarrow> Inr (row # rows)))))"

definition of_rows :: "nat \<Rightarrow> nat \<Rightarrow> cvec list \<Rightarrow> complex ndarray" where
  "of_rows bins sensors rows = tabulate [bins, sensors] (\<lambda>idx. rows ! (idx ! 0) ! (idx ! 1))"

definition get_gev_vector ::
  "gen_eigh_solver \<Rightarrow> gen_eig_solver \<Rightarrow> complex ndarray \<Rightarrow> complex ndarray \<Rightarrow>
   error + complex ndarray" where
  "get_gev_vector eigh eig target_psd_matrix noise_psd_matrix =
     (case shape target_psd_matrix of
        [bins, sensors, _] \<Rightarrow>
          (case gev_loop eigh eig target_psd_matrix noise_psd_matrix sensors [0..<bins] of
             Inl e \<Rightarrow> Inl e
           | Inr rows \<Rightarrow> Inr (of_rows bins sensors rows))
      | _ \<Rightarrow> Inl ValueError)"

text \<open>\<open>np.einsum('k...d,l...d->...kl', a, b)\<close>\<close>

definition einsum_kd_ld :: "complex ndarray \<Rightarrow> complex ndarray \<Rightarrow> error + complex ndarray" where
  "einsum_kd_ld a b =
     (if ndim a < 2 \<or> ndim b < 2 then Inl ValueError
      else
        case (broadcast (tl (shape a)) (tl (shape b))) of
          Some mid_d \<Rightarrow>
            Inr (tabulate (butlast mid_d @ [hd (shape a), hd (shape b)])
                   (\<lambda>idx. let q = take (length mid_d - 1) idx;
                              k = idx ! (length mid_d - 1);
                              l = idx ! length mid_d
                          in \<Sum>d\<leftarrow>[0..<last mid_d].
                               elem a (k # bidx (tl (shape a)) (q @ [d])) *
                               elem b (l # bidx (tl (shape b)) (q @ [d]))))
        | None \<Rightarrow> Inl ValueError)"

text \<open>\<open>np.einsum('k...d,...k->...d', a, b)\<close>\<close>

definition einsum_kd_k :: "complex ndarray \<Rightarrow> complex ndarray \<Rightarrow> error + complex ndarray" where
  "einsum_kd_k a b =
     (if ndim a < 2 \<or> ndim b < 1 then Inl ValueError
      else
        case (broadcast (butlast (tl (shape a))) (butlast (shape b)),
              broadcast [hd (shape a)] [last (shape b)]) of
          (Some mid, Some [K]) \<Rightarrow>
            Inr (tabulate (mid @ [last (shape a)])
                   (\<lambda>idx. let q = butlast idx; d = last idx
                          in \<Sum>k\<leftarrow>[0..<K].
                               elem a (bidx [hd (shape a)] [k] @ bidx (butlast (tl (shape a))) q @ [d]) *
                               elem b (bidx (shape b) (q @ [k]))))
        | _ \<Rightarrow> Inl ValueError)"

definition get_lcmv_vector ::
  "solver \<Rightarrow> complex ndarray \<Rightarrow> complex ndarray \<Rightarrow> complex ndarray \<Rightarrow> error + complex ndarray" where
  "get_lcmv_vector solve atf_vectors response_vector noise_psd_matrix =
     (case np_expand_dims noise_psd_matrix 0 of
        Inl e \<Rightarrow> Inl e
      | Inr noise \<Rightarrow>
          (case np_solve solve noise atf_vectors of
             Inl e \<Rightarrow> Inl e
           | Inr Phi_inverse_times_H \<Rightarrow>
               (case einsum_kd_ld (np_conj atf_vectors) Phi_inverse_times_H of
                  Inl e \<Rightarrow> Inl e
                | Inr H_times_Phi_inverse_times_H \<Rightarrow>
                    (case np_expand_dims response_vector 0 of
                       Inl e \<Rightarrow> Inl e
                     | Inr response \<Rightarrow>
                         (case np_solve solve H_times_Phi_inverse_times_H response of
                            Inl e \<Rightarrow> Inl e
                          | Inr temp \<Rightarrow> einsum_kd_k Phi_inverse_times_H temp)))))"

text \<open>\<open>np.dot\<close> of a vector with a matrix, and of two vectors\<close>

definition vec_mat :: "cvec \<Rightarrow> cmat \<Rightarrow> cvec" where
  "vec_mat u M = map (\<lambda>j. \<Sum>i\<leftarrow>[0..<length u]. u ! i * M ! i ! j) [0..<length (hd M)]"

definition dot :: "cvec \<Rightarrow> cvec \<Rightarrow> complex" where
  "dot u v = (\<Sum>i\<leftarrow>[0..<length u]. u ! i * v ! i)"

text \<open>
  The scale of one bin in \<open>blind_analytic_normalization\<close>. A zero denominator gives
  \<open>inf\<close> or \<open>nan\<close> in numpy; nothing is stated about it. The function is modelled
  for a noise matrix of shape (bins, sensors, sensors), the one the pipeline hands over.
\<close>

definition ban_scale :: "cvec \<Rightarrow> cmat \<Rightarrow> real" where
  "ban_scale v N =
     cmod (csqrt (dot (vec_mat (vec_mat (map cnj v) N) N) v)) / cmod (dot (vec_mat (map cnj v) N) v)"

definition blind_analytic_normalization ::
  "complex ndarray \<Rightarrow> complex ndarray \<Rightarrow> error + complex ndarray" where
  "blind_analytic_normalization vector noise_psd_matrix =
     (case shape vector of
        [bins, sensors] \<Rightarrow>
          if bins = 0 then Inr (tabulate [bins, sensors] (\<lambda>idx. 0))
          else if ndim noise_psd_matrix \<noteq> 3 then Inl ValueError
          else if hd (shape noise_psd_matrix) < bins then Inl IndexError
          else if shape noise_psd_matrix ! 1 \<noteq> sensors \<or> shape noise_psd_matrix ! 2 \<noteq> sensors
          then Inl ValueError
          else Inr (tabulate [bins, sensors]
                      (\<lambda>idx. elem vector idx *
                         complex_of_real (ban_scale (vec_at vector [idx ! 0])
                                                    (mat_at noise_psd_matrix [idx ! 0]))))
      | _ \<Rightarrow> Inl ValueError)"

text \<open>\<open>np.einsum('...a,...at->...t', vector.conj(), mix)\<close>\<close>

definition apply_beamforming_vector ::
  "complex ndarray \<Rightarrow> complex ndarray \<Rightarrow> error + complex ndarray" where
  "apply_beamforming_vector vector mix =
     (if ndim vector < 1 \<or> ndim mix < 2 then Inl ValueError
      else
        case (broadcast (butlast (shape vector)) (lead2 (shape mix)),
              broadcast [last (shape vector)] [shape mix ! (ndim mix - 2)]) of
          (Some pre, Some [A]) \<Rightarrow>
            Inr (tabulate (pre @ [last (shape mix)])
                   (\<lambda>idx. let p = butlast idx; t = last idx
                          in \<Sum>a\<leftarrow>[0..<A]. elem (np_conj vector) (bidx (shape vector) (p @ [a])) *
                                             elem mix (bidx (shape mix) (p @ [a, t]))))
        | _ \<Rightarrow> Inl ValueError)"


section \<open>Pipelines from masks to the enhanced signal\<close>

text \<open>
  The pipelines work on views \<open>mask.T\<close> of the caller's masks, and estimating a matrix
  normalises the mask it is given in place. Each pipeline returns the caller's noise mask
  and target mask as they are after the call, and then its result. The two masks are
  taken to be different arrays.
\<close>

definition mask_T :: "mask \<Rightarrow> mask" where
  "mask_T m = (case m of BoolMask b \<Rightarrow> BoolMask (np_T b) | FloatMask f \<Rightarrow> FloatMask (np_T f))"

definition mask_shape :: "mask \<Rightarrow> nat list" where
  "mask_shape m = (case m of BoolMask b \<Rightarrow> shape b | FloatMask f \<Rightarrow> shape f)"

text \<open>\<open>np.clip(1 - mask, 1e-6, 1)\<close>, a new array\<close>

definition clip_one_minus :: "mask \<Rightarrow> mask" where
  "clip_one_minus m =
     FloatMask (np_map (\<lambda>x. min (max (1 - x) (1 / 10 ^ 6)) 1)
                  (case m of BoolMask b \<Rightarrow> asfarray b | FloatMask f \<Rightarrow> f))"

text \<open>What the caller's array holds when the view of it holds \<open>after\<close>.\<close>

definition write_back :: "mask option \<Rightarrow> mask option \<Rightarrow> mask option" where
  "write_back caller after = (case caller of None \<Rightarrow> None | Some m \<Rightarrow> map_option mask_T after)"

definition gev_wrapper_on_masks ::
  "gen_eigh_solver \<Rightarrow> gen_eig_solver \<Rightarrow> complex ndarray \<Rightarrow> mask option \<Rightarrow> mask option \<Rightarrow> bool \<Rightarrow>
   (mask option \<times> mask option) \<times> (error + complex ndarray)" where
  "gev_wrapper_on_masks eigh eig mix0 noise_mask0 target_mask0 normalization =
     (if noise_mask0 = None \<and> target_mask0 = None
      then ((noise_mask0, target_mask0), Inl ValueError)
      else
        let mix = np_T mix0;
            noise_view = map_option mask_T noise_mask0;
            target_view = map_option mask_T target_mask0;
            target_mask = (if target_view = None then clip_one_minus (the noise_view)
                           else the target_view);
            noise_mask = (if noise_view = None then clip_one_minus target_mask
                          else the noise_view)
        in if ndim mix \<noteq> 3 then ((noise_mask0, target_mask0), Inl ValueError)
           else
             (case get_power_spectral_density_matrix mix (Some target_mask) (- 2) (- 2) (- 1) of
                (target_after, Inl e) \<Rightarrow>
                  ((noise_mask0, write_back target_mask0 target_after), Inl e)
              | (target_after, Inr target_psd_matrix) \<Rightarrow>
                  (case get_power_spectral_density_matrix mix (Some noise_mask) (- 2) (- 2) (- 1) of
                     (noise_after, Inl e) \<Rightarrow>
                       ((write_back noise_mask0 noise_after,
                         write_back target_mask0 target_after), Inl e)
                   | (noise_after, Inr noise_psd_matrix) \<Rightarrow>
                       ((write_back noise_mask0 noise_after, write_back target_mask0 target_after),
                        case get_gev_vector eigh eig target_psd_matrix noise_psd_matrix of
                          Inl e \<Rightarrow> Inl e
                        | Inr W_gev0 \<Rightarrow>
                            (case (if normalization
                                   then blind_analytic_normalization W_gev0 noise_psd_matrix
                                   else Inr W_gev0) of
                               Inl e \<Rightarrow> Inl e
                             | Inr W_gev \<Rightarrow>
                                 (case apply_beamforming_vector W_gev mix of
                                    Inl e \<Rightarrow> Inl e
                                  | Inr output \<Rightarrow> Inr (np_T output)))))))"

definition pca_wrapper_on_masks ::
  "eigh_solver \<Rightarrow> complex ndarray \<Rightarrow> mask option \<Rightarrow> mask option \<Rightarrow>
   (mask option \<times> mask option) \<times> (error + complex ndarray)" where
  "pca_wrapper_on_masks eigh mix0 noise_mask0 target_mask0 =
     (if noise_mask0 = None \<and> target_mask0 = None
      then ((noise_mask0, target_mask0), Inl ValueError)
      else
        let mix = np_T mix0;
            noise_view = map_option mask_T noise_mask0;
            target_view = map_option mask_T target_mask0;
            target_mask = (if target_view = None then clip_one_minus (the noise_view)
                           else the target_view)
        in if ndim mix \<noteq> 3 then ((noise_mask0, target_mask0), Inl ValueError)
           else
             (case get_power_spectral_density_matrix mix (Some target_mask) (- 2) (- 2) (- 1) of
                (target_after, Inl e) \<Rightarrow>
                  ((noise_mask0, write_back target_mask0 target_after), Inl e)
              | (target_after, Inr target_psd_matrix) \<Rightarrow>
                  ((noise_mask0, write_back target_mask0 target_after),
                   case get_pca_vector eigh target_psd_matrix of
                     Inl e \<Rightarrow> Inl e
                   | Inr W_pca \<Rightarrow>
                       (case apply_beamforming_vector W_pca mix of
                          Inl e \<Rightarrow> Inl e
                        | Inr output \<Rightarrow> Inr (np_T output)))))"

text \<open>
  \<open>noise_psd_matrix += np.tile(regularization * np.eye(noise_psd_matrix.shape[1]),
  (noise_psd_matrix.shape[0], 1, 1))\<close>
\<close>

definition regularize :: "complex ndarray \<Rightarrow> real \<Rightarrow> error + complex ndarray" where
  "regularize noise_psd_matrix regularization =
     np_inplace2 (\<lambda>x r. x + complex_of_real r) noise_psd_matrix
       (tabulate [shape noise_psd_matrix ! 0, shape noise_psd_matrix ! 1, shape noise_psd_matrix ! 1]
          (\<lambda>idx. if idx ! 1 = idx ! 2 then regularization else 0))"

text \<open>
  The PCA-then-MVDR pipeline up to its two beamforming vectors. It returns the mix in
  the layout (bins, sensors, frames), \<open>W_pca\<close> and \<open>W_mvdr\<close>.
\<close>

definition pca_mvdr_vectors ::
  "eigh_solver \<Rightarrow> solver \<Rightarrow> complex ndarray \<Rightarrow> mask option \<Rightarrow> mask option \<Rightarrow> real option \<Rightarrow>
   (mask option \<times> mask option) \<times>
   (error + complex ndarray \<times> complex ndarray \<times> complex ndarray)" where
  "pca_mvdr_vectors eigh solve mix0 noise_mask0 target_mask0 regularization =
     (if noise_mask0 = None \<and> target_mask0 = None
      then ((noise_mask0, target_mask0), Inl ValueError)
      else
        let mix = np_T mix0;
            noise_view = map_option mask_T noise_mask0;
            target_view = map_option mask_T target_mask0;
            target_mask = (if target_view = None then clip_one_minus (the noise_view)
                           else the target_view);
            noise_mask = (if noise_view = None then clip_one_minus target_mask
                          else the noise_view)
        in if ndim mix \<noteq> 3 then ((noise_mask0, target_mask0), Inl ValueError)
           else
             (case get_power_spectral_density_matrix mix (Some target_mask) (- 2) (- 2) (- 1) of
                (target_after, Inl e) \<Rightarrow>
                  ((noise_mask0, write_back target_mask0 target_after), Inl e)
              | (target_after, Inr target_psd_matrix) \<Rightarrow>
                  (case get_power_spectral_density_matrix mix (Some noise_mask) (- 2) (- 2) (- 1) of
                     (noise_after, Inl e) \<Rightarrow>
                       ((write_back noise_mask0 noise_after,
                         write_back target_mask0 target_after), Inl e)
                   | (noise_after, Inr noise_psd_matrix0) \<Rightarrow>
                       ((write_back noise_mask0 noise_after, write_back target_mask0 target_after),
                        case (case regularization of
                                None \<Rightarrow> Inr noise_psd_matrix0
                              | Some r \<Rightarrow> regularize noise_psd_matrix0 r) of
                          Inl e \<Rightarrow> Inl e
                        | Inr noise_psd_matrix \<Rightarrow>
                            (case get_pca_vector eigh target_psd_matrix of
                               Inl e \<Rightarrow> Inl e
                             | Inr W_pca \<Rightarrow>
                                 (case get_mvdr_vector solve W_pca noise_psd_matrix of
                                    Inl e \<Rightarrow> Inl e
                                  | Inr W_mvdr \<Rightarrow> Inr (mix, W_pca, W_mvdr)))))))"

text \<open>The pipeline as the module has it: the output is made with \<open>W_pca\<close>.\<close>

definition pca_mvdr_wrapper_on_masks ::
  "eigh_solver \<Rightarrow> solver \<Rightarrow> complex ndarray \<Rightarrow> mask option \<Rightarrow> mask option \<Rightarrow> real option \<Rightarrow>
   (mask option \<times> mask option) \<times> (error + complex ndarray)" where
  "pca_mvdr_wrapper_on_masks eigh solve mix0 noise_mask0 target_mask0 regularization =
     (case pca_mvdr_vectors eigh solve mix0 noise_mask0 target_mask0 regularization of
        (masks, Inl e) \<Rightarrow> (masks, Inl e)
      | (masks, Inr (mix, W_pca, W_mvdr)) \<Rightarrow>
          (masks, case apply_beamforming_vector W_pca mix of
                    Inl e \<Rightarrow> Inl e
                  | Inr output \<Rightarrow> Inr (np_T output)))"

text \<open>
  The pipeline as the specification words it: the same steps, the output made with the
  MVDR vector.
\<close>

definition pca_mvdr_as_specified ::
  "eigh_solver \<Rightarrow> solver \<Rightarrow> complex ndarray \<Rightarrow> mask option \<Rightarrow> mask option \<Rightarrow> real option \<Rightarrow>
   (mask option \<times> mask option) \<times> (error + complex ndarray)" where
  "pca_mvdr_as_specified eigh solve mix0 noise_mask0 target_mask0 regularization =
     (case pca_mvdr_vectors eigh solve mix0 noise_mask0 target_mask0 regularization of
        (masks, Inl e) \<Rightarrow> (masks, Inl e)
      | (masks, Inr (mix, W_pca, W_mvdr)) \<Rightarrow>
          (masks, case apply_beamforming_vector W_mvdr mix of
                    Inl e \<Rightarrow> Inl e
                  | Inr output \<Rightarrow> Inr (np_T output)))"

section \<open>Properties\<close>

text \<open>
  A matrix stack is Hermitian when it equals its own conjugate transpose on the last two
  axes, entry by entry.
\<close>

definition is_hermitian :: "complex ndarray \<Rightarrow> bool" where
  "is_hermitian a =
     (case np_swapaxes_last2 a of
        Inl e \<Rightarrow> False
      | Inr sw \<Rightarrow> array_equal (np_conj sw) a)"

text \<open>
  The same symmetry at every index of the right length, valid or not: the form that the
  proofs carry through the array operations.
\<close>

definition conj_symmetric :: "complex ndarray \<Rightarrow> bool" where
  "conj_symmetric a \<longleftrightarrow>
     2 \<le> ndim a \<and> shape a ! (ndim a - 2) = last (shape a) \<and>
     (\<forall>p d e. length p = ndim a - 2 \<longrightarrow> elem a (p @ [d, e]) = cnj (elem a (p @ [e, d])))"

text \<open>Arrays written as nested lists, as \<open>np.array([...])\<close> does.\<close>

definition array1 :: "'a list \<Rightarrow> 'a ndarray" where
  "array1 xs = tabulate [length xs] (\<lambda>idx. xs ! (idx ! 0))"

definition array2 :: "'a list list \<Rightarrow> 'a ndarray" where
  "array2 xs = tabulate [length xs, length (hd xs)] (\<lambda>idx. xs ! (idx ! 0) ! (idx ! 1))"

definition array3 :: "'a list list list \<Rightarrow> 'a ndarray" where
  "array3 xs = tabulate [length xs, length (hd xs), length (hd (hd xs))]
                 (\<lambda>idx. xs ! (idx ! 0) ! (idx ! 1) ! (idx ! 2))"

text \<open>A mask whose every entry is one (\<open>True\<close> for a boolean mask).\<close>

definition all_ones :: "mask \<Rightarrow> bool" where
  "all_ones m =
     (case m of
        BoolMask b \<Rightarrow> list_all (\<lambda>idx. elem b idx) (indices (shape b))
      | FloatMask f \<Rightarrow> list_all (\<lambda>idx. elem f idx = 1) (indices (shape f)))"

text \<open>
  The caller's mask before and after a call hold the same entries (and are of the same
  kind).
\<close>

definition masks_equal :: "mask option \<Rightarrow> mask option \<Rightarrow> bool" where
  "masks_equal a b =
     (case (a, b) of
        (None, None) \<Rightarrow> True
      | (Some (BoolMask x), Some (BoolMask y)) \<Rightarrow> array_equal x y
      | (Some (FloatMask x), Some (FloatMask y)) \<Rightarrow> array_equal x y
      | _ \<Rightarrow> False)"

text \<open>
  An exact solver for systems of one or two unknowns (Cramer's rule). It stands in for
  \<open>numpy.linalg.solve\<close> where a theorem is run on a concrete input; it raises
  LinAlgError for a singular matrix and for any larger system.
\<close>

fun solve_cramer :: solver where
  "solve_cramer [[a]] [e] = (if a = 0 then Inl LinAlgError else Inr [e / a])"
| "solve_cramer [[a, b], [c, d]] [e, f] =
     (if a * d - b * c = 0 then Inl LinAlgError
      else Inr [(e * d - b * f) / (a * d - b * c), (a * f - e * c) / (a * d - b * c)])"
| "solve_cramer A y = Inl LinAlgError"



text \<open>
  The sample covariance of an observation of shape (..., sensors, frames), scaled by
  1/frames, as the specification words the estimate without a mask:
  \<open>psd[..., d, e] = (1/frames) * sum over t of obs[..., d, t] * conj(obs[..., e, t])\<close>.
\<close>

definition sample_covariance :: "complex ndarray \<Rightarrow> complex ndarray" where
  "sample_covariance obs =
     (let k = ndim obs - 2; sensors = shape obs ! k; frames = last (shape obs) in
      tabulate (lead2 (shape obs) @ [sensors, sensors])
        (\<lambda>idx. (\<Sum>t\<leftarrow>[0..<frames]. elem obs (take k idx @ [idx ! k, t]) *
                                   cnj (elem obs (take k idx @ [idx ! Suc k, t]))) / of_nat frames))"

text \<open>
  \<open>numpy.linalg.eigh\<close> on a diagonal matrix for one or two sensors: the eigenvalues in
  ascending order, unit vectors as eigenvectors. It stands in for the library where the
  pipeline is run on a concrete input; any other matrix is beyond it.
\<close>

fun eigh_diag :: eigh_solver where
  "eigh_diag [[a]] = Inr ([Re a], [[1]])"
| "eigh_diag [[a, b], [c, d]] =
     (if b = 0 \<and> c = 0
      then (if Re a \<le> Re d then Inr ([Re a, Re d], [[1, 0], [0, 1]])
            else Inr ([Re d, Re a], [[0, 1], [1, 0]]))
      else Inl LinAlgError)"
| "eigh_diag M = Inl LinAlgError"

section \<open>Facts about arrays, shapes and broadcasting\<close>

lemma shape_tabulate [simp]: "shape (tabulate sh f) = sh" by (simp add: tabulate_def)

lemma elem_tabulate [simp]: "elem (tabulate sh f) = f" by (simp add: tabulate_def)

lemma ndim_tabulate [simp]: "ndim (tabulate sh f) = length sh" by (simp add: ndim_def)

lemma shape_np_map [simp]: "shape (np_map f a) = shape a" by (simp add: np_map_def)

lemma elem_np_map [simp]: "elem (np_map f a) idx = f (elem a idx)" by (simp add: np_map_def)

lemma ndim_np_map [simp]: "ndim (np_map f a) = ndim a" by (simp add: ndim_def)

lemma shape_np_conj [simp]: "shape (np_conj a) = shape a" by (simp add: np_conj_def)

lemma elem_np_conj [simp]: "elem (np_conj a) idx = cnj (elem a idx)" by (simp add: np_conj_def)

lemma ndim_np_conj [simp]: "ndim (np_conj a) = ndim a" by (simp add: ndim_def)

lemma valid_length: "valid sh idx \<Longrightarrow> length idx = length sh"
  by (simp add: valid_def list_all2_lengthD)

lemma valid_Nil [simp]: "valid [] idx \<longleftrightarrow> idx = []"
  by (simp add: valid_def)

lemma valid_Cons [simp]: "valid (n # ns) idx \<longleftrightarrow> (\<exists>i is. idx = i # is \<and> i < n \<and> valid ns is)"
  by (cases idx) (auto simp: valid_def)

lemma set_indices: "set (indices sh) = {idx. valid sh idx}"
  by (induction sh) auto

lemma valid_append:
  "length i1 = length s1 \<Longrightarrow> valid (s1 @ s2) (i1 @ i2) \<longleftrightarrow> valid s1 i1 \<and> valid s2 i2"
  by (simp add: valid_def list_all2_append)

lemma bidx_length [simp]: "length (bidx sh idx) = min (length sh) (length idx)"
  by (simp add: bidx_def)

lemma bidx_append:
  "length s2 = length i2 \<Longrightarrow> bidx (s1 @ s2) (i1 @ i2) = bidx s1 i1 @ bidx s2 i2"
  by (simp add: bidx_def)

lemma bidx_Nil [simp]: "bidx [] idx = []" "bidx sh [] = []"
  by (simp_all add: bidx_def)

lemma bidx_single [simp]: "bidx [n] [i] = [if n = 1 then 0 else i]"
  by (simp add: bidx_def)

lemma bidx_two [simp]: "bidx [n, m] [i, j] = [if n = 1 then 0 else i, if m = 1 then 0 else j]"
  by (simp add: bidx_def)

lemma bidx_snoc:
  "bidx (sh @ [n]) (idx @ [i]) = bidx sh idx @ [if n = 1 then 0 else i]"
  using bidx_append [of "[n]" "[i]" sh idx] by simp

lemma bidx_snoc2:
  "bidx (sh @ [n, m]) (idx @ [i, j]) = bidx sh idx @ [if n = 1 then 0 else i, if m = 1 then 0 else j]"
  using bidx_append [of "[n, m]" "[i, j]" sh idx] by simp

lemma bidx_valid: "valid sh idx \<Longrightarrow> bidx sh idx = idx"
proof (induction sh arbitrary: idx rule: rev_induct)
  case Nil
  then show ?case by simp
next
  case (snoc n sh)
  from snoc.prems have len: "length idx = Suc (length sh)"
    by (simp add: valid_def list_all2_lengthD)
  then obtain js j where idx: "idx = js @ [j]"
    by (metis length_Suc_conv_rev)
  with snoc.prems len have "valid sh js" "j < n"
    by (simp_all add: valid_append)
  with snoc.IH idx show ?case
    by (auto simp: bidx_snoc)
qed

lemma shape_split2: "2 \<le> length sh \<Longrightarrow> sh = lead2 sh @ [sh ! (length sh - 2), last sh]"
proof -
  assume a: "2 \<le> length sh"
  have "sh = take (length sh - 2) sh @ drop (length sh - 2) sh" by simp
  moreover have "drop (length sh - 2) sh = [sh ! (length sh - 2), last sh]"
  proof (rule nth_equalityI)
    show "length (drop (length sh - 2) sh) = length [sh ! (length sh - 2), last sh]"
      using a by simp
  next
    fix i assume "i < length (drop (length sh - 2) sh)"
    with a have "i < 2" by simp
    then consider "i = 0" | "i = 1" by linarith
    then show "drop (length sh - 2) sh ! i = [sh ! (length sh - 2), last sh] ! i"
    proof cases
      case 1 then show ?thesis using a by simp
    next
      case 2
      from a have "sh \<noteq> []" by auto
      then have "last sh = sh ! (length sh - 1)" by (simp add: last_conv_nth)
      moreover from a have "Suc (length sh - 2) = length sh - 1" by simp
      ultimately show ?thesis using 2 a by simp
    qed
  qed
  ultimately show ?thesis by (simp add: lead2_def)
qed

lemma cnj_sum_list: "cnj (sum_list xs) = sum_list (map cnj xs)"
  by (induction xs) simp_all

lemma index_split2:
  assumes "length (idx :: nat list) = n" "2 \<le> n"
  shows "idx = take (n - 2) idx @ [idx ! (n - 2), last idx]"
  using shape_split2 [of idx] assms by (simp add: lead2_def)

lemma is_hermitianI:
  assumes n: "2 \<le> ndim a"
    and sq: "shape a ! (ndim a - 2) = last (shape a)"
    and sym: "\<And>p d e. length p = ndim a - 2 \<Longrightarrow> elem a (p @ [d, e]) = cnj (elem a (p @ [e, d]))"
  shows "is_hermitian a"
proof -
  let ?n = "ndim a"
  have sh: "shape a = lead2 (shape a) @ [shape a ! (?n - 2), last (shape a)]"
    using shape_split2 [of "shape a"] n by (simp add: ndim_def)
  have "elem a idx = cnj (elem a (take (?n - 2) idx @ [last idx, idx ! (?n - 2)]))"
    if "idx \<in> set (indices (shape a))" for idx
  proof -
    from that have "length idx = ?n"
      by (simp add: set_indices valid_length ndim_def)
    then have idx: "idx = take (?n - 2) idx @ [idx ! (?n - 2), last idx]"
      using index_split2 n by blast
    have "length (take (?n - 2) idx) = ?n - 2"
      using \<open>length idx = ?n\<close> by simp
    from sym [OF this, of "idx ! (?n - 2)" "last idx"] idx show ?thesis
      by simp
  qed
  then show ?thesis
    using n sq sh
    by (auto simp: is_hermitian_def np_swapaxes_last2_def Let_def array_equal_def list_all_iff)
qed

lemma einsum_dt_et_cases:
  assumes "einsum_dt_et a b = Inr r"
  obtains pre T where "2 \<le> ndim a" "2 \<le> ndim b"
    "broadcast (lead2 (shape a)) (lead2 (shape b)) = Some pre"
    "broadcast [last (shape a)] [last (shape b)] = Some [T]"
    "shape r = pre @ [shape a ! (ndim a - 2), shape b ! (ndim b - 2)]"
    "\<And>p d e. length p = length pre \<Longrightarrow>
       elem r (p @ [d, e]) =
         (\<Sum>t\<leftarrow>[0..<T]. elem a (bidx (shape a) (p @ [d, t])) * elem b (bidx (shape b) (p @ [e, t])))"
  using assms
  by (auto simp: einsum_dt_et_def Let_def nth_append split: if_splits option.splits list.splits)

lemma broadcast_rev_length:
  "broadcast_rev xs ys = Some zs \<Longrightarrow> length zs = max (length xs) (length ys)"
  by (induction xs ys arbitrary: zs rule: broadcast_rev.induct) (auto split: if_splits)

lemma broadcast_length:
  "broadcast s1 s2 = Some s \<Longrightarrow> length s = max (length s1) (length s2)"
  by (auto simp: broadcast_def dest: broadcast_rev_length)

lemma broadcast_rev_reindex:
  "broadcast_rev xs ys = Some zs \<Longrightarrow>
     map2 (\<lambda>n i. if n = 1 then 0 else i) xs (map2 (\<lambda>n i. if n = 1 then 0 else i) zs js) =
       map2 (\<lambda>n i. if n = (1::nat) then 0 else (i::nat)) xs js \<and>
     map2 (\<lambda>n i. if n = 1 then 0 else i) ys (map2 (\<lambda>n i. if n = 1 then 0 else i) zs js) =
       map2 (\<lambda>n i. if n = (1::nat) then 0 else (i::nat)) ys js"
proof (induction xs ys arbitrary: zs js rule: broadcast_rev.induct)
  case (1 ys)
  then show ?case
  proof (induction ys arbitrary: zs js)
    case Nil then show ?case by simp
  next
    case (Cons y ys)
    then show ?case by (cases js) auto
  qed
next
  case (2 x xs)
  have "map2 (\<lambda>n i. if n = 1 then 0 else i) as (map2 (\<lambda>n i. if n = 1 then 0 else i) as js) =
       map2 (\<lambda>n i. if n = (1::nat) then 0 else (i::nat)) as js" for as js
  proof (induction as arbitrary: js)
    case Nil then show ?case by simp
  next
    case (Cons a as) then show ?case by (cases js) auto
  qed
  with 2 show ?case by auto
next
  case (3 x xs y ys)
  then show ?case by (cases js) (auto split: if_splits)
qed

lemma bidx_bidx_left:
  assumes "broadcast s1 s2 = Some s"
  shows "bidx s1 (bidx s idx) = bidx s1 idx"
proof -
  from assms obtain zs where "broadcast_rev (rev s1) (rev s2) = Some zs" "s = rev zs"
    by (auto simp: broadcast_def)
  with broadcast_rev_reindex [of "rev s1" "rev s2" zs "rev idx"] show ?thesis
    by (simp add: bidx_def)
qed

lemma bidx_bidx_right:
  assumes "broadcast s1 s2 = Some s"
  shows "bidx s2 (bidx s idx) = bidx s2 idx"
proof -
  from assms obtain zs where "broadcast_rev (rev s1) (rev s2) = Some zs" "s = rev zs"
    by (auto simp: broadcast_def)
  with broadcast_rev_reindex [of "rev s1" "rev s2" zs "rev idx"] show ?thesis
    by (simp add: bidx_def)
qed

lemma broadcast_snoc2_one:
  assumes "broadcast (xs @ [1, a]) (ys @ [D, b]) = Some s"
  shows "\<exists>pre T. s = pre @ [D, T]"
proof -
  from assms obtain zs where zs: "broadcast_rev (a # 1 # rev xs) (b # D # rev ys) = Some zs" "s = rev zs"
    by (auto simp: broadcast_def)
  then obtain T rest where "zs = T # D # rest"
    by (auto split: if_splits)
  with zs show ?thesis by auto
qed

lemma take_drop_last:
  "xs \<noteq> [] \<Longrightarrow> take (length xs - Suc 0) xs = butlast xs \<and> drop (length xs - Suc 0) xs = [last xs]"
  by (induction xs rule: rev_induct) simp_all

lemma expand_dims_m2:
  assumes "np_expand_dims m (- 2) = Inr m'"
  shows "1 \<le> ndim m" "shape m' = butlast (shape m) @ [1, last (shape m)]"
    "elem m' idx = elem m (take (ndim m - 1) idx @ drop (ndim m) idx)"
proof -
  from assms show k: "1 \<le> ndim m"
    by (auto simp: np_expand_dims_def normalize_axis_def split: if_splits)
  then have ne: "shape m \<noteq> []" by (auto simp: ndim_def)
  have nk: "nat (int (ndim m) - 1) = ndim m - 1" by simp
  from k have ax: "normalize_axis (- 2) (ndim m + 1) = Inr (ndim m - 1)"
    by (auto simp: normalize_axis_def)
  with assms have m': "m' = tabulate (take (ndim m - 1) (shape m) @ 1 # drop (ndim m - 1) (shape m))
                 (\<lambda>idx. elem m (take (ndim m - 1) idx @ drop (Suc (ndim m - 1)) idx))"
    by (simp add: np_expand_dims_def)
  from take_drop_last [OF ne] m' show "shape m' = butlast (shape m) @ [1, last (shape m)]"
    by (simp add: ndim_def)
  from m' k show "elem m' idx = elem m (take (ndim m - 1) idx @ drop (ndim m) idx)"
    by simp
qed

lemma np_broadcast2_cases:
  assumes "np_broadcast2 f a b = Inr r"
  obtains "broadcast (shape a) (shape b) = Some (shape r)"
    "\<And>idx. elem r idx = f (elem a (bidx (shape a) idx)) (elem b (bidx (shape b) idx))"
  using assms by (auto simp: np_broadcast2_def split: option.splits)

lemma einsum_kt_dt_et_cases:
  assumes "einsum_kt_dt_et m a b = Inr r"
  obtains pre T where "2 \<le> ndim m" "2 \<le> ndim a" "2 \<le> ndim b"
    "shape r = pre @ [shape m ! (ndim m - 2), shape a ! (ndim a - 2), shape b ! (ndim b - 2)]"
    "\<And>p k d e. length p = length pre \<Longrightarrow>
       elem r (p @ [k, d, e]) =
         (\<Sum>t\<leftarrow>[0..<T]. complex_of_real (elem m (bidx (shape m) (p @ [k, t]))) *
            elem a (bidx (shape a) (p @ [d, t])) * elem b (bidx (shape b) (p @ [e, t])))"
  using assms
  by (auto simp: einsum_kt_dt_et_def Let_def nth_append split: if_splits option.splits list.splits)

lemma index_of_less: "x \<in> set xs \<Longrightarrow> index_of xs x < length xs"
  by (induction xs) auto

lemma nth_index_of: "x \<in> set xs \<Longrightarrow> xs ! index_of xs x = x"
  by (induction xs) auto

lemma index_of_nth: "distinct xs \<Longrightarrow> i < length xs \<Longrightarrow> index_of xs (xs ! i) = i"
proof (induction xs arbitrary: i)
  case Nil then show ?case by simp
next
  case (Cons x xs)
  then show ?case by (cases i) auto
qed

lemma distinct_below_is_range:
  assumes "distinct (perm :: nat list)" "\<forall>k \<in> set perm. k < length perm"
  shows "set perm = {0..<length perm}"
proof (rule card_subset_eq)
  show "finite {0..<length perm}" by simp
  show "set perm \<subseteq> {0..<length perm}" using assms(2) by auto
  show "card (set perm) = card {0..<length perm}"
    using assms(1) by (simp add: distinct_card)
qed

lemma transpose_keeps_last2:
  assumes dist: "distinct (front @ [n, Suc n])"
    and len: "length front = n"
    and below: "\<forall>k \<in> set front. k < Suc (Suc n)"
    and q: "length q = n"
  shows "map (\<lambda>j. (q @ [d, e]) ! index_of (front @ [n, Suc n]) j) [0..<Suc (Suc n)] =
         map (\<lambda>j. q ! index_of front j) [0..<n] @ [d, e]"
proof -
  let ?perm = "front @ [n, Suc n]"
  have set: "set ?perm = {0..<length ?perm}"
    by (rule distinct_below_is_range [OF dist]) (use below len in auto)
  have front: "set front = {0..<n}"
  proof -
    from dist have "n \<notin> set front" "Suc n \<notin> set front" by auto
    moreover from set len have "set front \<union> {n, Suc n} = {0..<Suc (Suc n)}" by auto
    ultimately show ?thesis by auto (metis atLeastLessThan_iff insert_iff Un_iff less_Suc_eq zero_le)
  qed
  have a: "index_of ?perm j = index_of front j" if "j < n" for j
  proof -
    from that front have "j \<in> set front" by simp
    then show ?thesis by (induction front) auto
  qed
  have b: "index_of ?perm n = n"
    using index_of_nth [OF dist, of n] len by (simp add: nth_append)
  have c: "index_of ?perm (Suc n) = Suc n"
    using index_of_nth [OF dist, of "Suc n"] len by (simp add: nth_append)
  have d: "index_of front j < n" if "j < n" for j
    using that front index_of_less [of j front] len by simp
  have "[0..<Suc (Suc n)] = [0..<n] @ [n, Suc n]" by simp
  then have "map (\<lambda>j. (q @ [d, e]) ! index_of ?perm j) [0..<Suc (Suc n)] =
        map (\<lambda>j. (q @ [d, e]) ! index_of ?perm j) [0..<n] @ [(q @ [d, e]) ! index_of ?perm n,
           (q @ [d, e]) ! index_of ?perm (Suc n)]"
    by (simp del: upt_Suc)
  also have "map (\<lambda>j. (q @ [d, e]) ! index_of ?perm j) [0..<n] = map (\<lambda>j. q ! index_of front j) [0..<n]"
    using a d q by (auto simp: nth_append)
  finally show ?thesis using b c q by (simp add: nth_append)
qed

lemma bidx_same_length:
  "length idx = length sh \<Longrightarrow> bidx sh idx = map2 (\<lambda>n i. if n = 1 then 0 else i) sh idx"
  by (simp add: bidx_def zip_rev rev_map)

lemma broadcast_rev_same [simp]: "broadcast_rev xs xs = Some xs"
  by (induction xs) auto

lemma broadcast_same [simp]: "broadcast sh sh = Some sh"
  by (simp add: broadcast_def)

lemma broadcast_rev_update_one: "broadcast_rev xs (xs[j := Suc 0]) = Some xs"
proof (induction xs arbitrary: j)
  case Nil then show ?case by simp
next
  case (Cons x xs)
  then show ?case by (cases j) auto
qed

lemma broadcast_update_one: "broadcast sh (sh[k := Suc 0]) = Some sh"
proof (cases "k < length sh")
  case True
  then have "rev (sh[k := Suc 0]) = (rev sh)[length sh - Suc k := Suc 0]"
    by (simp add: rev_update)
  then show ?thesis
    by (simp add: broadcast_def broadcast_rev_update_one)
next
  case False
  then have "length sh \<le> k" by simp
  then have "sh[k := Suc 0] = sh" by (rule list_update_beyond)
  then show ?thesis by simp
qed

lemma bidx_update_one:
  assumes "valid sh idx" "k < length sh"
  shows "bidx (sh[k := Suc 0]) idx = idx[k := 0]"
proof (rule nth_equalityI)
  from assms have len: "length idx = length sh" by (simp add: valid_length)
  then show "length (bidx (sh[k := Suc 0]) idx) = length (idx[k := 0])" by simp
  fix i assume "i < length (bidx (sh[k := Suc 0]) idx)"
  with len have i: "i < length sh" by simp
  from assms(1) i have lt: "idx ! i < sh ! i"
    by (simp add: valid_def list_all2_nthD2)
  show "bidx (sh[k := Suc 0]) idx ! i = idx[k := 0] ! i"
  proof (cases "i = k")
    case True
    with i len show ?thesis by (simp add: bidx_same_length)
  next
    case False
    with i len lt show ?thesis by (auto simp: bidx_same_length)
  qed
qed

lemma normalize_mask_Inr:
  assumes "normalize_mask m time_dim = Inr m'"
  obtains k where "normalize_axis time_dim (ndim m) = Inr k" "k < ndim m" "shape m' = shape m"
    "\<And>idx. valid (shape m) idx \<Longrightarrow>
       elem m' idx = elem m idx / max (\<Sum>t\<leftarrow>[0..<shape m ! k]. elem m (idx[k := t])) (1 / 10 ^ 10)"
proof -
  from assms obtain k where k: "normalize_axis time_dim (ndim m) = Inr k"
    by (auto simp: normalize_mask_def np_sum_keepdims_def split: sum.splits)
  then have kn: "k < ndim m"
    by (auto simp: normalize_axis_def split: if_splits)
  from assms k have m': "m' = tabulate (shape m)
     (\<lambda>idx. elem m idx / max (\<Sum>t\<leftarrow>[0..<shape m ! k]. elem m ((bidx ((shape m)[k := Suc 0]) idx)[k := t])) (1 / 10 ^ 10))"
    by (auto simp: normalize_mask_def np_sum_keepdims_def np_inplace2_def broadcast_update_one)
  show ?thesis
  proof (rule that [OF k kn])
    show "shape m' = shape m" by (simp add: m')
    fix idx assume "valid (shape m) idx"
    with kn show "elem m' idx =
        elem m idx / max (\<Sum>t\<leftarrow>[0..<shape m ! k]. elem m (idx[k := t])) (1 / 10 ^ 10)"
      by (simp add: m' bidx_update_one ndim_def)
  qed
qed

lemma normalize_mask_total:
  assumes "normalize_axis time_dim (ndim m) = Inr k"
  shows "\<exists>m'. normalize_mask m time_dim = Inr m'"
  using assms by (simp add: normalize_mask_def np_sum_keepdims_def np_inplace2_def broadcast_update_one)

lemma upto_as_map: "[- int n..-1] = map (\<lambda>k. int k - int n) [0..<n]"
proof (induction n)
  case 0
  then show ?case by simp
next
  case (Suc n)
  have "[- int (Suc n)..-1] = (- int (Suc n)) # [- int n..-1]"
    by (subst upto_rec1) simp_all
  also have "\<dots> = (- int (Suc n)) # map (\<lambda>k. int k - int n) [0..<n]"
    using Suc.IH by simp
  also have "\<dots> = map (\<lambda>k. int k - int (Suc n)) [0..<Suc n]"
    by (simp add: upt_conv_Cons map_Suc_upt [symmetric] del: upt_Suc)
  finally show ?case .
qed

lemma index_of_upt: "j < n \<Longrightarrow> index_of [0..<n] j = j"
  using index_of_nth [of "[0..<n]" j] by simp

lemma default_dims:
  assumes "2 \<le> n"
  shows "(- 2) mod int n - int n = - 2" "(- 1) mod int n - int n = - 1"
proof -
  have "(- 2) mod int n = (int n - 2) mod int n"
    by (metis add.commute mod_add_self2 uminus_add_conv_diff)
  also have "\<dots> = int n - 2" using assms by (intro mod_pos_pos_trivial) auto
  finally show "(- 2) mod int n - int n = - 2" by simp
  have "(- 1) mod int n = (int n - 1) mod int n"
    by (metis add.commute mod_add_self2 uminus_add_conv_diff)
  also have "\<dots> = int n - 1" using assms by (intro mod_pos_pos_trivial) auto
  finally show "(- 1) mod int n - int n = - 1" by simp
qed

lemma default_axes_plain:
  assumes "2 \<le> n"
  shows "filter (\<lambda>i. i \<notin> set [- 2, - 1]) [- int n..-1] @ [- 2, - 1] =
         map (\<lambda>k. int k - int n) [0..<n]"
proof -
  from assms obtain m where n: "n = m + 2"
    by (metis add.commute le_add_diff_inverse)
  have up: "[0..<m + 2] = [0..<m] @ [m, Suc m]" by simp
  have keep: "filter (\<lambda>i. i \<noteq> - 2 \<and> i \<noteq> - 1) (map (\<lambda>k. int k - int (m + 2)) [0..<m]) =
              map (\<lambda>k. int k - int (m + 2)) [0..<m]"
    by (rule filter_True) auto
  show ?thesis
    unfolding upto_as_map n up using keep by simp
qed

lemma np_transpose_identity:
  "\<exists>obs. np_transpose X (map (\<lambda>k. int k - int (ndim X)) [0..<ndim X]) = Inr obs \<and>
         shape obs = shape X \<and> (\<forall>idx. length idx = ndim X \<longrightarrow> elem obs idx = elem X idx)"
proof -
  let ?n = "ndim X"
  let ?axes = "map (\<lambda>k. int k - int ?n) [0..<?n]"
  have perm: "map (\<lambda>ax. nat (if ax < 0 then ax + int ?n else ax)) ?axes = [0..<?n]"
    by (rule nth_equalityI) auto
  have range: "\<not> (\<exists>ax \<in> set ?axes. \<not> (- int ?n \<le> ax \<and> ax < int ?n))"
    by auto
  have "np_transpose X ?axes =
          Inr (tabulate (map (\<lambda>k. shape X ! k) [0..<?n])
                 (\<lambda>idx. elem X (map (\<lambda>j. idx ! index_of [0..<?n] j) [0..<?n])))"
    unfolding np_transpose_def Let_def perm using range by simp
  moreover have "map (\<lambda>k. shape X ! k) [0..<?n] = shape X"
    by (simp add: ndim_def map_nth)
  moreover have "map (\<lambda>j. idx ! index_of [0..<?n] j) [0..<?n] = idx" if "length idx = ?n" for idx :: "nat list"
  proof -
    have "map (\<lambda>j. idx ! index_of [0..<?n] j) [0..<?n] = map (\<lambda>j. idx ! j) [0..<?n]"
      by (rule map_cong) (simp_all add: index_of_upt)
    also have "\<dots> = map (\<lambda>j. idx ! j) [0..<length idx]" using that by simp
    also have "\<dots> = idx" by (rule map_nth)
    finally show ?thesis .
  qed
  ultimately show ?thesis by simp
qed

text \<open>The estimator with its default axes, on an observation with at least two axes.\<close>

lemma get_psd_default:
  assumes N: "2 \<le> ndim X"
  obtains obs where "shape obs = shape X"
    "\<And>idx. length idx = ndim X \<Longrightarrow> elem obs idx = elem X idx"
    "\<And>mk. get_power_spectral_density_matrix X mk (- 2) (- 2) (- 1) = psd_transposed obs mk (- 2) (- 1)"
proof -
  from np_transpose_identity [of X] obtain obs where
    tr: "np_transpose X (map (\<lambda>k. int k - int (ndim X)) [0..<ndim X]) = Inr obs" and
    sh: "shape obs = shape X" and el: "\<And>idx. length idx = ndim X \<Longrightarrow> elem obs idx = elem X idx"
    by blast
  from N have nz: "int (ndim X) \<noteq> 0" by simp
  show ?thesis
  proof (rule that [OF sh el])
    fix mk
    show "get_power_spectral_density_matrix X mk (- 2) (- 2) (- 1) = psd_transposed obs mk (- 2) (- 1)"
      unfolding get_power_spectral_density_matrix_def Let_def default_dims [OF N]
        default_axes_plain [OF N] tr
      using nz by simp
  qed (assumption)
qed

lemma np_transpose_ndim: "np_transpose a axes = Inr r \<Longrightarrow> ndim r = ndim a"
  by (auto simp: np_transpose_def Let_def ndim_def split: if_splits)

lemmas psd_defs = get_power_spectral_density_matrix_def psd_transposed_def ndim_def Let_def np_transpose_def
    normalize_mask_def np_sum_keepdims_def normalize_axis_def np_inplace2_def broadcast_def masked_psd_def
    np_expand_dims_def np_broadcast2_def einsum_dt_et_def einsum_kt_dt_et_def lead2_def divide_by_frames_def
    array1_def array2_def array3_def

section \<open>The estimator on the documented shapes\<close>

lemma lead2_snoc2 [simp]: "lead2 (pre @ [a, b]) = pre"
  by (simp add: lead2_def)

lemma nth_snoc2 [simp]: "(pre @ [a, b]) ! length pre = a" "(pre @ [a, b]) ! Suc (length pre) = b"
  by (simp_all add: nth_append)

lemma broadcast_one_sensor: "broadcast (pre @ [Suc 0, T]) (pre @ [D, T]) = Some (pre @ [D, T])"
  by (simp add: broadcast_def)

lemma broadcast_single_same: "broadcast [T] [T] = Some [T]"
  by simp

lemma sum_list_cong:
  "(\<And>x. x \<in> set xs \<Longrightarrow> f x = g x) \<Longrightarrow> sum_list (map f xs) = sum_list (map g xs)"
  by (rule arg_cong [where f = sum_list]) (rule map_cong, simp_all)

lemma masked_psd_same_rank:
  assumes so: "shape obs = pre @ [D, T]" and sm: "shape m = pre @ [T]"
  obtains psd where "masked_psd obs m source_dim time_dim = Inr psd" "shape psd = pre @ [D, D]"
    "\<And>p d e. valid pre p \<Longrightarrow> d < D \<Longrightarrow> e < D \<Longrightarrow>
       elem psd (p @ [d, e]) =
         (\<Sum>t\<leftarrow>[0..<T]. complex_of_real (elem m (p @ [t])) * elem obs (p @ [d, t]) *
                          cnj (elem obs (p @ [e, t])))"
proof -
  let ?k = "length pre"
  let ?m' = "tabulate (pre @ [Suc 0, T]) (\<lambda>idx. elem m (take ?k idx @ drop (Suc ?k) idx))"
  let ?mo = "tabulate (pre @ [D, T])
               (\<lambda>idx. complex_of_real (elem ?m' (bidx (pre @ [Suc 0, T]) idx)) *
                      elem obs (bidx (pre @ [D, T]) idx))"
  let ?psd = "tabulate (pre @ [D, D])
                (\<lambda>idx. \<Sum>t\<leftarrow>[0..<T]. elem ?mo (bidx (pre @ [D, T]) (take ?k idx @ [idx ! ?k, t])) *
                     elem (np_conj obs) (bidx (pre @ [D, T]) (take ?k idx @ [idx ! Suc ?k, t])))"
  have rank: "ndim m + 1 = ndim obs" by (simp add: ndim_def so sm)
  have ex: "np_expand_dims m (- 2) = Inr ?m'"
    by (simp add: np_expand_dims_def normalize_axis_def ndim_def sm)
  have mo: "np_broadcast2 (\<lambda>w x. complex_of_real w * x) ?m' obs = Inr ?mo"
    by (simp add: np_broadcast2_def so broadcast_one_sensor)
  have es: "einsum_dt_et ?mo (np_conj obs) = Inr ?psd"
    by (simp add: einsum_dt_et_def so ndim_def Let_def)
  have run: "masked_psd obs m source_dim time_dim = Inr ?psd"
    by (simp only: masked_psd_def rank if_True ex mo es sum.case simp_thms)
  show ?thesis
  proof (rule that [OF run])
    show "shape ?psd = pre @ [D, D]" by simp
    fix p d e assume p: "valid pre p" and d: "d < D" and e: "e < D"
    then have len: "length p = ?k" by (simp add: valid_length)
    have summand: "elem ?mo (bidx (pre @ [D, T]) (p @ [d, t])) *
                elem (np_conj obs) (bidx (pre @ [D, T]) (p @ [e, t])) =
                complex_of_real (elem m (p @ [t])) * elem obs (p @ [d, t]) * cnj (elem obs (p @ [e, t]))"
      if "t \<in> set [0..<T]" for t
    proof -
      from that have t: "t < T" by simp
      from p d t len have v1: "valid (pre @ [D, T]) (p @ [d, t])"
        by (simp add: valid_append)
      from p e t len have v2: "valid (pre @ [D, T]) (p @ [e, t])"
        by (simp add: valid_append)
      from p t have w: "bidx (pre @ [Suc 0, T]) (p @ [d, t]) = p @ [0, t]"
        by (auto simp: bidx_snoc2 bidx_valid)
      show ?thesis
        by (simp add: bidx_valid [OF v1] bidx_valid [OF v2] w len)
    qed
    show "elem ?psd (p @ [d, e]) =
         (\<Sum>t\<leftarrow>[0..<T]. complex_of_real (elem m (p @ [t])) * elem obs (p @ [d, t]) *
                          cnj (elem obs (p @ [e, t])))"
    proof -
      have "elem ?psd (p @ [d, e]) =
          (\<Sum>t\<leftarrow>[0..<T]. elem ?mo (bidx (pre @ [D, T]) (p @ [d, t])) *
                elem (np_conj obs) (bidx (pre @ [D, T]) (p @ [e, t])))"
        using len by (simp add: nth_append)
      also have "\<dots> = (\<Sum>t\<leftarrow>[0..<T]. complex_of_real (elem m (p @ [t])) * elem obs (p @ [d, t]) *
                          cnj (elem obs (p @ [e, t])))"
        by (rule sum_list_cong) (rule summand)
      finally show ?thesis .
    qed
  qed
qed

lemma masked_psd_sources:
  assumes so: "shape obs = pre @ [D, T]" and sm: "shape m = pre @ [K, T]"
  obtains psd where "masked_psd obs m (- 2) (- 1) = Inr psd" "shape psd = pre @ [K, D, D]"
proof -
  have N: "2 \<le> ndim obs" and rank: "ndim m = ndim obs"
    by (simp_all add: ndim_def so sm)
  from np_transpose_identity [of m] obtain m' where
    tr: "np_transpose m (map (\<lambda>k. int k - int (ndim obs)) [0..<ndim obs]) = Inr m'" and
    sh: "shape m' = shape m"
    unfolding rank by blast
  have es: "\<exists>psd. einsum_kt_dt_et m' obs (np_conj obs) = Inr psd \<and> shape psd = pre @ [K, D, D]"
    by (simp add: einsum_kt_dt_et_def so sm sh ndim_def Let_def)
  then obtain psd where psd: "einsum_kt_dt_et m' obs (np_conj obs) = Inr psd"
    "shape psd = pre @ [K, D, D]" by blast
  have "masked_psd obs m (- 2) (- 1) = Inr psd"
    unfolding masked_psd_def Let_def default_axes_plain [OF N]
    using rank by (simp add: tr psd)
  then show ?thesis using psd(2) by (rule that)
qed

lemma normalize_mask_default:
  assumes "shape m \<noteq> []"
  obtains m' where "normalize_mask m (- 1) = Inr m'" "shape m' = shape m"
proof -
  from assms have "Suc 0 \<le> length (shape m)" by (cases "shape m") simp_all
  then have "normalize_axis (- 1) (ndim m) = Inr (ndim m - 1)"
    by (auto simp: normalize_axis_def ndim_def)
  from normalize_mask_total [OF this] obtain m' where m': "normalize_mask m (- 1) = Inr m'"
    by blast
  then have "shape m' = shape m"
    by (rule normalize_mask_Inr)
  with m' show ?thesis by (rule that)
qed

lemma shape_asfarray [simp]: "shape (asfarray b) = shape b"
  by (simp add: asfarray_def)

lemma psd_default_same_rank:
  assumes sx: "shape X = pre @ [D, T]" and sm: "mask_shape mk = pre @ [T]"
  shows "\<exists>psd. snd (get_power_spectral_density_matrix X (Some mk) (- 2) (- 2) (- 1)) = Inr psd \<and>
               shape psd = pre @ [D, D]"
proof -
  have N: "2 \<le> ndim X" by (simp add: ndim_def sx)
  obtain obs where so: "shape obs = shape X" and
    el: "\<And>idx. length idx = ndim X \<Longrightarrow> elem obs idx = elem X idx" and
    eq: "\<And>mk. get_power_spectral_density_matrix X mk (- 2) (- 2) (- 1) =
              psd_transposed obs mk (- 2) (- 1)"
    by (rule get_psd_default [OF N]) blast
  define m0 where "m0 = (case mk of BoolMask b \<Rightarrow> asfarray b | FloatMask f \<Rightarrow> f)"
  have s0: "shape m0 = pre @ [T]"
    using sm by (cases mk) (simp_all add: m0_def mask_shape_def)
  then have "shape m0 \<noteq> []" by simp
  from normalize_mask_default [OF this] obtain m where
    m: "normalize_mask m0 (- 1) = Inr m" "shape m = shape m0" by blast
  have so': "shape obs = pre @ [D, T]" using so sx by simp
  have sm': "shape m = pre @ [T]" using m(2) s0 by simp
  obtain psd where
    psd: "masked_psd obs m (- 2) (- 1) = Inr psd" "shape psd = pre @ [D, D]"
    by (rule masked_psd_same_rank [OF so' sm', of "- 2" "- 1"])
  have "snd (get_power_spectral_density_matrix X (Some mk) (- 2) (- 2) (- 1)) = Inr psd"
    using m(1) psd(1) by (cases mk) (simp_all add: eq psd_transposed_def m0_def)
  with psd(2) show ?thesis by blast
qed

lemma psd_default_sources:
  assumes sx: "shape X = pre @ [D, T]" and sm: "mask_shape mk = pre @ [K, T]"
  shows "\<exists>psd. snd (get_power_spectral_density_matrix X (Some mk) (- 2) (- 2) (- 1)) = Inr psd \<and>
               shape psd = pre @ [K, D, D]"
proof -
  have N: "2 \<le> ndim X" by (simp add: ndim_def sx)
  obtain obs where so: "shape obs = shape X" and
    el: "\<And>idx. length idx = ndim X \<Longrightarrow> elem obs idx = elem X idx" and
    eq: "\<And>mk. get_power_spectral_density_matrix X mk (- 2) (- 2) (- 1) =
              psd_transposed obs mk (- 2) (- 1)"
    by (rule get_psd_default [OF N]) blast
  define m0 where "m0 = (case mk of BoolMask b \<Rightarrow> asfarray b | FloatMask f \<Rightarrow> f)"
  have s0: "shape m0 = pre @ [K, T]"
    using sm by (cases mk) (simp_all add: m0_def mask_shape_def)
  then have "shape m0 \<noteq> []" by simp
  from normalize_mask_default [OF this] obtain m where
    m: "normalize_mask m0 (- 1) = Inr m" "shape m = shape m0" by blast
  have so': "shape obs = pre @ [D, T]" using so sx by simp
  have sm': "shape m = pre @ [K, T]" using m(2) s0 by simp
  obtain psd where
    psd: "masked_psd obs m (- 2) (- 1) = Inr psd" "shape psd = pre @ [K, D, D]"
    by (rule masked_psd_sources [OF so' sm'])
  have "snd (get_power_spectral_density_matrix X (Some mk) (- 2) (- 2) (- 1)) = Inr psd"
    using m(1) psd(1) by (cases mk) (simp_all add: eq psd_transposed_def m0_def)
  with psd(2) show ?thesis by blast
qed

lemma valid_snoc2E:
  assumes "valid (pre @ [D, E]) idx"
  obtains p d e where "idx = p @ [d, e]" "valid pre p" "d < D" "e < E"
proof -
  from assms have len: "length idx = length pre + 2" by (simp add: valid_length)
  define p where "p = take (length pre) idx"
  from len have idx: "idx = p @ [idx ! length pre, last idx]"
    using index_split2 [of idx "length pre + 2"] by (simp add: p_def)
  have lp: "length p = length pre" using len by (simp add: p_def)
  from assms have "valid (pre @ [D, E]) (p @ [idx ! length pre, last idx])"
    using idx by simp
  with lp have "valid pre p" "idx ! length pre < D" "last idx < E"
    by (simp_all add: valid_append)
  with idx show ?thesis by (rule that)
qed

lemma unweighted_psd:
  assumes so: "shape obs = pre @ [D, T]"
  obtains r where "einsum_dt_et obs (np_conj obs) = Inr r" "shape r = pre @ [D, D]"
    "\<And>p d e. valid pre p \<Longrightarrow> d < D \<Longrightarrow> e < D \<Longrightarrow>
       elem r (p @ [d, e]) = (\<Sum>t\<leftarrow>[0..<T]. elem obs (p @ [d, t]) * cnj (elem obs (p @ [e, t])))"
proof -
  let ?k = "length pre"
  let ?r = "tabulate (pre @ [D, D])
                (\<lambda>idx. \<Sum>t\<leftarrow>[0..<T]. elem obs (bidx (pre @ [D, T]) (take ?k idx @ [idx ! ?k, t])) *
                     elem (np_conj obs) (bidx (pre @ [D, T]) (take ?k idx @ [idx ! Suc ?k, t])))"
  have es: "einsum_dt_et obs (np_conj obs) = Inr ?r"
    by (simp add: einsum_dt_et_def so ndim_def Let_def)
  show ?thesis
  proof (rule that [OF es])
    show "shape ?r = pre @ [D, D]" by simp
    fix p d e assume p: "valid pre p" and d: "d < D" and e: "e < D"
    then have len: "length p = ?k" by (simp add: valid_length)
    have summand: "elem obs (bidx (pre @ [D, T]) (p @ [d, t])) *
                elem (np_conj obs) (bidx (pre @ [D, T]) (p @ [e, t])) =
                elem obs (p @ [d, t]) * cnj (elem obs (p @ [e, t]))"
      if "t \<in> set [0..<T]" for t
    proof -
      from that have t: "t < T" by simp
      from p d t len have v1: "valid (pre @ [D, T]) (p @ [d, t])"
        by (simp add: valid_append)
      from p e t len have v2: "valid (pre @ [D, T]) (p @ [e, t])"
        by (simp add: valid_append)
      show ?thesis
        by (simp add: bidx_valid [OF v1] bidx_valid [OF v2])
    qed
    have "elem ?r (p @ [d, e]) =
          (\<Sum>t\<leftarrow>[0..<T]. elem obs (bidx (pre @ [D, T]) (p @ [d, t])) *
                elem (np_conj obs) (bidx (pre @ [D, T]) (p @ [e, t])))"
      using len by (simp add: nth_append)
    also have "\<dots> = (\<Sum>t\<leftarrow>[0..<T]. elem obs (p @ [d, t]) * cnj (elem obs (p @ [e, t])))"
      by (rule sum_list_cong) (rule summand)
    finally show "elem ?r (p @ [d, e]) =
        (\<Sum>t\<leftarrow>[0..<T]. elem obs (p @ [d, t]) * cnj (elem obs (p @ [e, t])))" .
  qed
qed

lemma psd_unweighted_rank:
  assumes "snd (get_power_spectral_density_matrix X None sd srd td) = Inr psd"
  shows "2 \<le> ndim X"
proof -
  from assms obtain axes obs r where "np_transpose X axes = Inr obs" "einsum_dt_et obs (np_conj obs) = Inr r"
    by (auto simp: get_power_spectral_density_matrix_def psd_transposed_def Let_def
        split: if_splits sum.splits)
  then show ?thesis
    by (auto dest!: np_transpose_ndim simp: einsum_dt_et_def split: if_splits)
qed

lemma sum_list_const_mult:
  "(\<Sum>x\<leftarrow>xs. (c::complex) * f x) = c * (\<Sum>x\<leftarrow>xs. f x)"
  by (induction xs) (simp_all add: algebra_simps)

lemma sum_list_ones: "(\<Sum>t\<leftarrow>[0..<T]. (1::real)) = real T"
  by (induction T) simp_all

section \<open>The estimated matrix is Hermitian\<close>

lemma conj_symmetric_hermitian: "conj_symmetric a \<Longrightarrow> is_hermitian a"
  unfolding conj_symmetric_def by (rule is_hermitianI) blast+

lemma np_transpose_conj_symmetric:
  assumes tr: "np_transpose a (map int (front @ [n, Suc n])) = Inr r"
    and N: "ndim a = Suc (Suc n)"
    and len: "length front = n"
    and sym: "conj_symmetric a"
  shows "conj_symmetric r"
proof -
  let ?perm = "front @ [n, Suc n]"
  have nat_int: "map (\<lambda>ax. nat (if ax < 0 then ax + int (ndim a) else ax)) (map int ?perm) = ?perm"
    by (simp add: comp_def)
  from tr have range: "\<forall>k \<in> set front. k < Suc (Suc n)"
    unfolding np_transpose_def Let_def N
    by (auto split: if_splits)
  from tr have dist: "distinct ?perm"
    unfolding np_transpose_def Let_def using nat_int
    by (auto split: if_splits simp: comp_def)
  from tr have r: "r = tabulate (map (\<lambda>k. shape a ! k) ?perm)
                    (\<lambda>idx. elem a (map (\<lambda>j. idx ! index_of ?perm j) [0..<Suc (Suc n)]))"
    unfolding np_transpose_def Let_def using nat_int N
    by (auto split: if_splits simp: comp_def)
  have la: "last (shape a) = shape a ! Suc n"
  proof -
    from N have "shape a \<noteq> []" by (auto simp: ndim_def)
    then have "last (shape a) = shape a ! (length (shape a) - 1)" by (rule last_conv_nth)
    with N show ?thesis by (simp add: ndim_def)
  qed
  show ?thesis
    unfolding conj_symmetric_def
  proof (intro conjI allI impI)
    show "2 \<le> ndim r" using r len by (simp add: ndim_def)
    from sym N have "shape a ! n = last (shape a)"
      by (simp add: conj_symmetric_def)
    then show "shape r ! (ndim r - 2) = last (shape r)"
      using len la by (simp add: r ndim_def nth_append)
    fix p :: "nat list" and d e
    assume "length p = ndim r - 2"
    then have q: "length p = n" using r len by (simp add: ndim_def)
    have "length (map (\<lambda>j. p ! index_of front j) [0..<n]) = ndim a - 2"
      using N by simp
    with sym have "elem a (map (\<lambda>j. p ! index_of front j) [0..<n] @ [d, e]) =
        cnj (elem a (map (\<lambda>j. p ! index_of front j) [0..<n] @ [e, d]))"
      unfolding conj_symmetric_def by blast
    then show "elem r (p @ [d, e]) = cnj (elem r (p @ [e, d]))"
      unfolding r elem_tabulate transpose_keeps_last2 [OF dist len range q] .
  qed
qed

lemma filter_upt_remove:
  "filter (\<lambda>k. k \<noteq> m) [0..<m + 3] = [0..<m] @ [Suc m, Suc (Suc m)]"
proof -
  have "[0..<m + 3] = [0..<m] @ [m, Suc m, Suc (Suc m)]"
    by (simp add: numeral_3_eq_3)
  moreover have "filter (\<lambda>k. k \<noteq> m) [0..<m] = [0..<m]"
    by (rule filter_True) simp
  ultimately show ?thesis by simp
qed

lemma np_rollaxis_conj_symmetric:
  assumes ro: "np_rollaxis a (- 3) st = Inr r"
    and sym: "conj_symmetric a"
    and st: "0 \<le> st" "st \<le> int (ndim a) - 3"
  shows "conj_symmetric r"
proof -
  define m where "m = ndim a - 3"
  define s where "s = nat st"
  from st have N: "ndim a = m + 3" by (simp add: m_def)
  from st N have s: "st = int s" "s \<le> m" by (simp_all add: s_def)
  have ax: "normalize_axis (- 3) (m + 3) = Inr m"
    by (simp add: normalize_axis_def)
  show ?thesis
  proof (cases "s = m")
    case True
    with ro N s ax have "r = a"
      by (simp add: np_rollaxis_def Let_def)
    with sym show ?thesis by simp
  next
    case False
    with s have sm: "s < m" by simp
    let ?front = "take s [0..<m] @ m # drop s [0..<m]"
    have "take s ([0..<m] @ [Suc m, Suc (Suc m)]) @ m # drop s ([0..<m] @ [Suc m, Suc (Suc m)]) =
          ?front @ [Suc m, Suc (Suc m)]"
      using sm by simp
    with ro N s ax sm have tr: "np_transpose a (map int (?front @ [Suc m, Suc (Suc m)])) = Inr r"
      by (simp add: np_rollaxis_def Let_def filter_upt_remove del: upt_Suc)
    show ?thesis
    proof (rule np_transpose_conj_symmetric [OF tr _ _ sym])
      show "ndim a = Suc (Suc (Suc m))" using N by simp
      show "length ?front = Suc m" using sm by simp
    qed
  qed
qed

lemma conj_symmetricI:
  assumes "2 \<le> ndim a" "shape a ! (ndim a - 2) = last (shape a)"
    "\<And>p d e. length p = ndim a - 2 \<Longrightarrow> elem a (p @ [d, e]) = cnj (elem a (p @ [e, d]))"
  shows "conj_symmetric a"
  unfolding conj_symmetric_def using assms by blast

lemma symmetric_unweighted:
  assumes "einsum_dt_et obs (np_conj obs) = Inr psd"
  shows "conj_symmetric (np_map (\<lambda>x. x / of_nat T) psd)"
proof -
  from assms obtain pre T' where
    n: "2 \<le> ndim obs" and
    sh: "shape psd = pre @ [shape obs ! (ndim obs - 2), shape obs ! (ndim obs - 2)]" and
    el: "\<And>p d e. length p = length pre \<Longrightarrow>
       elem psd (p @ [d, e]) =
         (\<Sum>t\<leftarrow>[0..<T']. elem obs (bidx (shape obs) (p @ [d, t])) *
            elem (np_conj obs) (bidx (shape obs) (p @ [e, t])))"
    by (rule einsum_dt_et_cases) simp_all
  show ?thesis
  proof (rule conj_symmetricI)
    show "2 \<le> ndim (np_map (\<lambda>x. x / of_nat T) psd)"
      using sh by (simp add: ndim_def)
    show "shape (np_map (\<lambda>x. x / of_nat T) psd) ! (ndim (np_map (\<lambda>x. x / of_nat T) psd) - 2) =
          last (shape (np_map (\<lambda>x. x / of_nat T) psd))"
      using sh by (simp add: ndim_def nth_append)
    fix p :: "nat list" and d e
    assume "length p = ndim (np_map (\<lambda>x. x / of_nat T) psd) - 2"
    then have len: "length p = length pre"
      using sh by (simp add: ndim_def)
    show "elem (np_map (\<lambda>x. x / of_nat T) psd) (p @ [d, e]) =
          cnj (elem (np_map (\<lambda>x. x / of_nat T) psd) (p @ [e, d]))"
      by (simp add: el [OF len] cnj_sum_list comp_def mult.commute)
  qed
qed

lemma symmetric_masked_same_rank:
  assumes ex: "np_expand_dims m (- 2) = Inr m'"
    and mo: "np_broadcast2 (\<lambda>w x. complex_of_real w * x) m' obs = Inr mo"
    and psd: "einsum_dt_et mo (np_conj obs) = Inr psd"
  shows "conj_symmetric psd"
proof -
  from mo have bc: "broadcast (shape m') (shape obs) = Some (shape mo)"
    and mo_el: "\<And>idx. elem mo idx =
        complex_of_real (elem m' (bidx (shape m') idx)) * elem obs (bidx (shape obs) idx)"
    by (auto elim: np_broadcast2_cases)
  from psd obtain pre T where
    n: "2 \<le> ndim obs" "2 \<le> ndim mo" and
    sh: "shape psd = pre @ [shape mo ! (ndim mo - 2), shape obs ! (ndim obs - 2)]" and
    el: "\<And>p d e. length p = length pre \<Longrightarrow>
       elem psd (p @ [d, e]) =
         (\<Sum>t\<leftarrow>[0..<T]. elem mo (bidx (shape mo) (p @ [d, t])) *
            elem (np_conj obs) (bidx (shape obs) (p @ [e, t])))"
    by (rule einsum_dt_et_cases) simp_all
  have shm: "shape m' = butlast (shape m) @ [1, last (shape m)]"
    using expand_dims_m2 [OF ex] by simp
  have sho: "shape obs = lead2 (shape obs) @ [shape obs ! (ndim obs - 2), last (shape obs)]"
    using shape_split2 [of "shape obs"] n by (simp add: ndim_def)
  from bc shm sho obtain lead T' where smo: "shape mo = lead @ [shape obs ! (ndim obs - 2), T']"
    using broadcast_snoc2_one [of "butlast (shape m)" "last (shape m)" "lead2 (shape obs)"
        "shape obs ! (ndim obs - 2)" "last (shape obs)" "shape mo"]
    by auto
  have w: "bidx (shape m') (bidx (shape mo) (p @ [d, t])) =
           bidx (shape m') (bidx (shape mo) (p @ [e, t]))" for p d e t
    by (simp add: smo shm bidx_snoc2)
  have o: "bidx (shape obs) (bidx (shape mo) idx) = bidx (shape obs) idx" for idx
    using bidx_bidx_right [OF bc] .
  show ?thesis
  proof (rule conj_symmetricI)
    show "2 \<le> ndim psd" using sh by (simp add: ndim_def)
    show "shape psd ! (ndim psd - 2) = last (shape psd)"
      using sh smo by (simp add: ndim_def nth_append)
    fix p :: "nat list" and d e
    assume "length p = ndim psd - 2"
    then have len: "length p = length pre" using sh by (simp add: ndim_def)
    have "elem psd (p @ [d, e]) =
       (\<Sum>t\<leftarrow>[0..<T]. complex_of_real (elem m' (bidx (shape m') (bidx (shape mo) (p @ [d, t])))) *
          elem obs (bidx (shape obs) (p @ [d, t])) * cnj (elem obs (bidx (shape obs) (p @ [e, t]))))"
      by (simp add: el [OF len] mo_el o)
    moreover have "cnj (elem psd (p @ [e, d])) =
       (\<Sum>t\<leftarrow>[0..<T]. complex_of_real (elem m' (bidx (shape m') (bidx (shape mo) (p @ [e, t])))) *
          cnj (elem obs (bidx (shape obs) (p @ [e, t]))) * elem obs (bidx (shape obs) (p @ [d, t])))"
      by (simp add: el [OF len] mo_el o cnj_sum_list comp_def)
    ultimately show "elem psd (p @ [d, e]) = cnj (elem psd (p @ [e, d]))"
      by (simp add: w [of p d _ e] mult.assoc mult.left_commute mult.commute)
  qed
qed

lemma einsum_kt_dt_et_rank:
  assumes "einsum_kt_dt_et m a b = Inr r"
  shows "ndim a + 1 \<le> ndim r"
proof -
  from assms obtain pre0 T0 pre T where
    "2 \<le> ndim a"
    "broadcast (lead2 (shape a)) (lead2 (shape b)) = Some pre0"
    "broadcast (lead2 (shape m)) pre0 = Some pre"
    "shape r = pre @ [shape m ! (ndim m - 2), shape a ! (ndim a - 2), shape b ! (ndim b - 2)]"
    by (auto simp: einsum_kt_dt_et_def Let_def split: if_splits option.splits list.splits)
  then have "length pre = max (length (shape m) - 2) (max (length (shape a) - 2) (length (shape b) - 2))"
    "length (shape r) = length pre + 3" "2 \<le> length (shape a)"
    by (auto simp: ndim_def lead2_def dest!: broadcast_length)
  then show ?thesis
    unfolding ndim_def by linarith
qed

lemma symmetric_masked_sources:
  assumes psd: "einsum_kt_dt_et m obs (np_conj obs) = Inr psd"
  shows "conj_symmetric psd"
proof -
  from psd obtain pre T where
    sh: "shape psd = pre @ [shape m ! (ndim m - 2), shape obs ! (ndim obs - 2),
                             shape obs ! (ndim obs - 2)]" and
    el: "\<And>p k d e. length p = length pre \<Longrightarrow>
       elem psd (p @ [k, d, e]) =
         (\<Sum>t\<leftarrow>[0..<T]. complex_of_real (elem m (bidx (shape m) (p @ [k, t]))) *
            elem obs (bidx (shape obs) (p @ [d, t])) *
            elem (np_conj obs) (bidx (shape obs) (p @ [e, t])))"
    by (rule einsum_kt_dt_et_cases) simp_all
  show ?thesis
  proof (rule conj_symmetricI)
    show "2 \<le> ndim psd" using sh by (simp add: ndim_def)
    show "shape psd ! (ndim psd - 2) = last (shape psd)"
      using sh by (simp add: ndim_def nth_append)
    fix q :: "nat list" and d e
    assume "length q = ndim psd - 2"
    then have len: "length q = Suc (length pre)" using sh by (simp add: ndim_def)
    then obtain p k where q: "q = p @ [k]" "length p = length pre"
      by (metis length_Suc_conv_rev)
    show "elem psd (q @ [d, e]) = cnj (elem psd (q @ [e, d]))"
      by (simp add: q el cnj_sum_list comp_def mult.assoc mult.left_commute mult.commute)
  qed
qed

lemma symmetric_masked_psd:
  assumes psd: "masked_psd obs m source_dim time_dim = Inr psd"
    and src: "- int (ndim obs) \<le> source_dim"
  shows "conj_symmetric psd"
proof (cases "ndim m + 1 = ndim obs")
  case True
  with psd obtain m' mo where "np_expand_dims m (- 2) = Inr m'"
    "np_broadcast2 (\<lambda>w x. complex_of_real w * x) m' obs = Inr mo"
    "einsum_dt_et mo (np_conj obs) = Inr psd"
    by (auto simp: masked_psd_def split: sum.splits)
  then show ?thesis by (rule symmetric_masked_same_rank)
next
  case False
  with psd obtain m' psd0 where
    es: "einsum_kt_dt_et m' obs (np_conj obs) = Inr psd0" and
    ro: "(if source_dim < - 2 then np_rollaxis psd0 (- 3) (source_dim mod int (ndim obs))
          else Inr psd0) = Inr psd"
    by (auto simp: masked_psd_def Let_def split: sum.splits)
  have sym0: "conj_symmetric psd0" using es by (rule symmetric_masked_sources)
  show ?thesis
  proof (cases "source_dim < - 2")
    case False
    with ro sym0 show ?thesis by simp
  next
    case True
    with ro have r: "np_rollaxis psd0 (- 3) (source_dim mod int (ndim obs)) = Inr psd" by simp
    from es have rank: "ndim obs + 1 \<le> ndim psd0" by (rule einsum_kt_dt_et_rank)
    from True src have pos: "0 < int (ndim obs)" by linarith
    with True src have "source_dim mod int (ndim obs) = source_dim + int (ndim obs)"
      by (smt (verit) mod_add_self2 mod_pos_pos_trivial)
    with True rank pos have "0 \<le> source_dim mod int (ndim obs)"
      "source_dim mod int (ndim obs) \<le> int (ndim psd0) - 3"
      using src by linarith+
    with r sym0 show ?thesis by (rule np_rollaxis_conj_symmetric)
  qed
qed

lemma divide_by_frames_Inr:
  "divide_by_frames psd T = Inr r \<Longrightarrow> r = np_map (\<lambda>x. x / of_nat T) psd"
  by (auto simp: divide_by_frames_def split: if_splits)


text \<open>
  Claim C5. Whenever \<open>get_power_spectral_density_matrix\<close> returns a matrix stack, for any
  observation, any mask (none, boolean or real-valued) and any axis arguments, the stack
  equals its own conjugate transpose on the last two axes.
\<close>

theorem psd_is_hermitian:
  assumes "snd (get_power_spectral_density_matrix observation mask_in sensor_dim source_dim time_dim)
             = Inr psd"
  shows "is_hermitian psd"
proof -
  let ?n = "int (ndim observation)"
  let ?src = "source_dim mod ?n - ?n"
  let ?time = "time_dim mod ?n - ?n"
  let ?sens = "sensor_dim mod ?n - ?n"
  let ?axes = "filter (\<lambda>i. i \<notin> set [?sens, ?time]) [- ?n..-1] @ [?sens, ?time]"
  from assms have n: "?n \<noteq> 0"
    by (auto simp: get_power_spectral_density_matrix_def Let_def split: if_splits)
  then have src: "- ?n \<le> ?src" by simp
  from assms n obtain obs where tr: "np_transpose observation ?axes = Inr obs"
    by (auto simp: get_power_spectral_density_matrix_def Let_def split: sum.splits)
  then have rank: "ndim obs = ndim observation" by (rule np_transpose_ndim)
  from assms n tr have
    cases: "(\<exists>e. einsum_dt_et obs (np_conj obs) = Inr e \<and>
                 divide_by_frames e (last (shape obs)) = Inr psd) \<or>
            (\<exists>m. masked_psd obs m ?src ?time = Inr psd)"
    by (auto simp: get_power_spectral_density_matrix_def psd_transposed_def Let_def
        split: sum.splits option.splits mask.splits)
  then have "conj_symmetric psd"
  proof
    assume "\<exists>e. einsum_dt_et obs (np_conj obs) = Inr e \<and>
                 divide_by_frames e (last (shape obs)) = Inr psd"
    then show ?thesis
      by (auto dest!: divide_by_frames_Inr intro: symmetric_unweighted)
  next
    assume "\<exists>m. masked_psd obs m ?src ?time = Inr psd"
    then show ?thesis
      using src rank by (auto intro: symmetric_masked_psd)
  qed
  then show ?thesis by (rule conj_symmetric_hermitian)
qed

theorem psd_is_hermitian_witness:
  "\<exists>psd. snd (get_power_spectral_density_matrix (array3 [[[1, \<i>], [2, 1]]])
               (Some (FloatMask (array2 [[1, 3]]))) (- 2) (- 2) (- 1)) = Inr psd \<and>
         is_hermitian psd"
proof -
  have "\<exists>psd. snd (get_power_spectral_density_matrix (array3 [[[1, \<i>], [2, 1]]])
               (Some (FloatMask (array2 [[1, 3]]))) (- 2) (- 2) (- 1)) = Inr psd"
    by (simp add: psd_defs upto.simps)
  then show ?thesis
    using psd_is_hermitian by blast
qed

section \<open>Shapes of the estimated matrices\<close>

text \<open>
  Claim C8. For an observation of shape (51, 6, 31) and the default axis arguments, the
  estimator returns a matrix stack of shape (51, 6, 6) for a mask of shape (51, 31), and
  one of shape (51, 2, 6, 6) for a mask of shape (51, 2, 31).
\<close>

theorem psd_shapes:
  assumes "shape observation = [51, 6, 31]"
  shows "(mask_shape m1 = [51, 31] \<longrightarrow>
            (\<exists>psd. snd (get_power_spectral_density_matrix observation (Some m1) (- 2) (- 2) (- 1)) = Inr psd \<and>
                   shape psd = [51, 6, 6])) \<and>
         (mask_shape m2 = [51, 2, 31] \<longrightarrow>
            (\<exists>psd. snd (get_power_spectral_density_matrix observation (Some m2) (- 2) (- 2) (- 1)) = Inr psd \<and>
                   shape psd = [51, 2, 6, 6]))"
proof (intro conjI impI)
  have sx: "shape observation = [51] @ [6, 31]" using assms by simp
  {
    assume "mask_shape m1 = [51, 31]"
    then have "mask_shape m1 = [51] @ [31]" by simp
    from psd_default_same_rank [OF sx this]
    show "\<exists>psd. snd (get_power_spectral_density_matrix observation (Some m1) (- 2) (- 2) (- 1)) = Inr psd \<and>
                   shape psd = [51, 6, 6]"
      by (simp only: append.simps)
  }
  {
    assume "mask_shape m2 = [51, 2, 31]"
    then have "mask_shape m2 = [51] @ [2, 31]" by simp
    from psd_default_sources [OF sx this]
    show "\<exists>psd. snd (get_power_spectral_density_matrix observation (Some m2) (- 2) (- 2) (- 1)) = Inr psd \<and>
                   shape psd = [51, 2, 6, 6]"
      by (simp only: append.simps)
  }
qed

theorem psd_shapes_witness:
  "(\<exists>psd. snd (get_power_spectral_density_matrix
                 (tabulate [51, 6, 31] (\<lambda>idx. of_nat (idx ! 2) + \<i> * of_nat (idx ! 1)))
                 (Some (FloatMask (tabulate [51, 31] (\<lambda>idx. 1)))) (- 2) (- 2) (- 1)) = Inr psd \<and>
          shape psd = [51, 6, 6]) \<and>
   (\<exists>psd. snd (get_power_spectral_density_matrix
                 (tabulate [51, 6, 31] (\<lambda>idx. of_nat (idx ! 2) + \<i> * of_nat (idx ! 1)))
                 (Some (BoolMask (tabulate [51, 2, 31] (\<lambda>idx. idx ! 1 = 0)))) (- 2) (- 2) (- 1)) = Inr psd \<and>
          shape psd = [51, 2, 6, 6])"
proof -
  have sh: "shape (tabulate [51, 6, 31] (\<lambda>idx. of_nat (idx ! 2) + \<i> * of_nat (idx ! 1))) = [51, 6, 31]"
    by simp
  have m1: "mask_shape (FloatMask (tabulate [51, 31] (\<lambda>idx. 1))) = [51, 31]"
    by (simp add: mask_shape_def)
  have m2: "mask_shape (BoolMask (tabulate [51, 2, 31] (\<lambda>idx. idx ! 1 = 0))) = [51, 2, 31]"
    by (simp add: mask_shape_def)
  from psd_shapes [OF sh] m1 m2 show ?thesis by blast
qed

section \<open>A mask of ones gives the unweighted estimate\<close>

lemma normalized_ones:
  assumes sm: "shape m0 = pre @ [T]"
    and ones: "\<And>idx. valid (pre @ [T]) idx \<Longrightarrow> elem m0 idx = 1"
    and nm: "normalize_mask m0 (- 1) = Inr m"
    and p: "valid pre p" and t: "t < T"
  shows "elem m (p @ [t]) = 1 / real T"
proof -
  from nm obtain k where k: "normalize_axis (- 1) (ndim m0) = Inr k" and
    el: "\<And>idx. valid (shape m0) idx \<Longrightarrow>
       elem m idx = elem m0 idx / max (\<Sum>t\<leftarrow>[0..<shape m0 ! k]. elem m0 (idx[k := t])) (1 / 10 ^ 10)"
    by (rule normalize_mask_Inr) blast
  from k have kk: "k = length pre"
    by (auto simp: normalize_axis_def ndim_def sm split: if_splits)
  from p have len: "length p = length pre" by (simp add: valid_length)
  from p t len have v: "valid (shape m0) (p @ [t])"
    by (simp add: sm valid_append)
  have "(\<Sum>t'\<leftarrow>[0..<T]. elem m0 ((p @ [t])[k := t'])) = (\<Sum>t'\<leftarrow>[0..<T]. 1)"
  proof (rule sum_list_cong)
    fix t' assume "t' \<in> set [0..<T]"
    then have "valid (pre @ [T]) (p @ [t'])" using p len by (simp add: valid_append)
    moreover have "(p @ [t])[k := t'] = p @ [t']"
      unfolding kk len [symmetric] by simp
    ultimately show "elem m0 ((p @ [t])[k := t']) = 1"
      using ones by simp
  qed
  then have s: "(\<Sum>t'\<leftarrow>[0..<T]. elem m0 ((p @ [t])[k := t'])) = real T"
    by (simp add: sum_list_ones)
  from t have "1 \<le> real T" by simp
  then have mx: "max (real T) (1 / 10 ^ 10) = real T" by simp
  from el [OF v] ones [of "p @ [t]"] v mx show ?thesis
    unfolding sm by (simp add: kk s [unfolded kk])
qed

text \<open>
  With no frame at all the two calls differ: without a mask the estimator divides zeros
  by the zero frame count (\<open>nan\<close> in numpy), with a mask of ones it returns zeros.
\<close>

theorem ones_mask_zero_frames_counterexample:
  "all_ones (FloatMask (tabulate [1, 0] (\<lambda>idx. 1))) \<and>
   mask_shape (FloatMask (tabulate [1, 0] (\<lambda>idx. 1))) = [1, 0] \<and>
   snd (get_power_spectral_density_matrix (tabulate [1, 2, 0] (\<lambda>idx. 0)) None (- 2) (- 2) (- 1)) =
     Inl NotANumber \<and>
   (case snd (get_power_spectral_density_matrix (tabulate [1, 2, 0] (\<lambda>idx. 0))
                (Some (FloatMask (tabulate [1, 0] (\<lambda>idx. 1)))) (- 2) (- 2) (- 1)) of
      Inl e \<Rightarrow> False
    | Inr psd \<Rightarrow> shape psd = [1, 2, 2] \<and> list_all (\<lambda>idx. elem psd idx = 0) (indices (shape psd)))"
  by (simp add: psd_defs upto.simps all_ones_def mask_shape_def list_all_iff)

text \<open>
  Claim C6, as the code has it. With the default axes, for every observation of shape
  (..., sensors, frames) with at least one frame and every mask of all ones of shape
  (..., frames), the estimator returns with the mask and without a mask, the two results
  are equal entry by entry, and they are the sample covariance scaled by 1/frames.
\<close>

theorem psd_ones_mask_is_unweighted:
  assumes sx: "shape X = pre @ [D, T]"
    and T: "0 < T"
    and sm: "mask_shape mk = pre @ [T]"
    and ones: "all_ones mk"
  shows "\<exists>psd psd'.
           snd (get_power_spectral_density_matrix X None (- 2) (- 2) (- 1)) = Inr psd \<and>
           snd (get_power_spectral_density_matrix X (Some mk) (- 2) (- 2) (- 1)) = Inr psd' \<and>
           array_equal psd psd' \<and> array_equal psd (sample_covariance X)"
proof -
  have N: "2 \<le> ndim X" by (simp add: ndim_def sx)
  have nx: "ndim X = length pre + 2" by (simp add: ndim_def sx)
  obtain obs where so: "shape obs = shape X" and
    el: "\<And>idx. length idx = ndim X \<Longrightarrow> elem obs idx = elem X idx" and
    eq: "\<And>mk. get_power_spectral_density_matrix X mk (- 2) (- 2) (- 1) =
              psd_transposed obs mk (- 2) (- 1)"
    by (rule get_psd_default [OF N]) blast
  have so': "shape obs = pre @ [D, T]" using so sx by simp
  obtain r where r: "einsum_dt_et obs (np_conj obs) = Inr r" and sr: "shape r = pre @ [D, D]" and
    er: "\<And>p d e. valid pre p \<Longrightarrow> d < D \<Longrightarrow> e < D \<Longrightarrow>
       elem r (p @ [d, e]) = (\<Sum>t\<leftarrow>[0..<T]. elem obs (p @ [d, t]) * cnj (elem obs (p @ [e, t])))"
    by (rule unweighted_psd [OF so']) blast
  define psd where "psd = np_map (\<lambda>x. x / of_nat T) r"
  have un: "snd (get_power_spectral_density_matrix X None (- 2) (- 2) (- 1)) = Inr psd"
    using T by (simp add: eq psd_transposed_def r so' divide_by_frames_def psd_def)
  define m0 where "m0 = (case mk of BoolMask b \<Rightarrow> asfarray b | FloatMask f \<Rightarrow> f)"
  have s0: "shape m0 = pre @ [T]"
    using sm by (cases mk) (simp_all add: m0_def mask_shape_def)
  have one: "elem m0 idx = 1" if "valid (pre @ [T]) idx" for idx
  proof (cases mk)
    case (BoolMask b)
    with ones that s0 show ?thesis
      by (auto simp: all_ones_def m0_def asfarray_def list_all_iff set_indices)
  next
    case (FloatMask f)
    with ones that s0 show ?thesis
      by (auto simp: all_ones_def m0_def list_all_iff set_indices)
  qed
  from s0 have "shape m0 \<noteq> []" by simp
  from normalize_mask_default [OF this] obtain m where
    m: "normalize_mask m0 (- 1) = Inr m" "shape m = shape m0" by blast
  have sm': "shape m = pre @ [T]" using m(2) s0 by simp
  obtain psd' where
    run: "masked_psd obs m (- 2) (- 1) = Inr psd'" and sp: "shape psd' = pre @ [D, D]" and
    ep: "\<And>p d e. valid pre p \<Longrightarrow> d < D \<Longrightarrow> e < D \<Longrightarrow>
       elem psd' (p @ [d, e]) =
         (\<Sum>t\<leftarrow>[0..<T]. complex_of_real (elem m (p @ [t])) * elem obs (p @ [d, t]) *
                          cnj (elem obs (p @ [e, t])))"
    by (rule masked_psd_same_rank [OF so' sm', of "- 2" "- 1"]) blast
  have res: "snd (get_power_spectral_density_matrix X (Some mk) (- 2) (- 2) (- 1)) = Inr psd'"
    using m(1) run by (cases mk) (simp_all add: eq psd_transposed_def m0_def)
  have same: "elem psd idx = elem psd' idx" if "valid (pre @ [D, D]) idx" for idx
  proof -
    from that obtain p d e where idx: "idx = p @ [d, e]" and p: "valid pre p" and d: "d < D" and e: "e < D"
      by (rule valid_snoc2E)
    have "elem psd' idx =
         (\<Sum>t\<leftarrow>[0..<T]. complex_of_real (1 / real T) * (elem obs (p @ [d, t]) * cnj (elem obs (p @ [e, t]))))"
      unfolding idx ep [OF p d e]
      by (rule sum_list_cong) (simp add: normalized_ones [OF s0 one m(1) p])
    also have "\<dots> = complex_of_real (1 / real T) *
         (\<Sum>t\<leftarrow>[0..<T]. elem obs (p @ [d, t]) * cnj (elem obs (p @ [e, t])))"
      by (rule sum_list_const_mult)
    also have "\<dots> = elem psd idx"
      by (simp add: psd_def idx er [OF p d e])
    finally show ?thesis by simp
  qed
  have cov: "elem psd idx = elem (sample_covariance X) idx" if "valid (pre @ [D, D]) idx" for idx
  proof -
    from that obtain p d e where idx: "idx = p @ [d, e]" and p: "valid pre p" and d: "d < D" and e: "e < D"
      by (rule valid_snoc2E)
    from p have lp: "length p = length pre" by (simp add: valid_length)
    have "(\<Sum>t\<leftarrow>[0..<T]. elem obs (p @ [d, t]) * cnj (elem obs (p @ [e, t]))) =
          (\<Sum>t\<leftarrow>[0..<T]. elem X (p @ [d, t]) * cnj (elem X (p @ [e, t])))"
      by (rule sum_list_cong) (simp add: el nx lp)
    then show ?thesis
      by (simp add: psd_def idx er [OF p d e] sample_covariance_def Let_def sx nx lp nth_append)
  qed
  have "array_equal psd psd'"
    using same by (simp add: array_equal_def list_all_iff psd_def sr sp set_indices)
  moreover have "array_equal psd (sample_covariance X)"
    using cov by (simp add: array_equal_def list_all_iff psd_def sr set_indices
        sample_covariance_def Let_def sx nx nth_append)
  ultimately show ?thesis using un res by blast
qed

theorem psd_ones_mask_is_unweighted_witness:
  "\<exists>psd psd'.
     snd (get_power_spectral_density_matrix (array3 [[[1, \<i>], [2, 1]]]) None (- 2) (- 2) (- 1)) = Inr psd \<and>
     snd (get_power_spectral_density_matrix (array3 [[[1, \<i>], [2, 1]]])
            (Some (FloatMask (array2 [[1, 1]]))) (- 2) (- 2) (- 1)) = Inr psd' \<and>
     array_equal psd psd' \<and> array_equal psd (sample_covariance (array3 [[[1, \<i>], [2, 1]]])) \<and>
     elem (sample_covariance (array3 [[[1, \<i>], [2, 1]]])) [0, 0, 1] = (2 + \<i>) / 2"
proof -
  have sx: "shape (array3 [[[1, \<i>], [2, 1 :: complex]]]) = [1] @ [2, 2]"
    by (simp add: array3_def)
  have T: "0 < (2 :: nat)" by simp
  have sm: "mask_shape (FloatMask (array2 [[1, 1]])) = [1] @ [2]"
    by (simp add: mask_shape_def array2_def)
  have ones: "all_ones (FloatMask (array2 [[1, 1]]))"
    by (simp add: all_ones_def array2_def nth_Cons')
  have v: "elem (sample_covariance (array3 [[[1, \<i>], [2, 1]]])) [0, 0, 1] = (2 + \<i>) / 2"
    by (simp add: sample_covariance_def array3_def ndim_def Let_def upt_rec_numeral)
  from psd_ones_mask_is_unweighted [OF sx T sm ones] v show ?thesis by blast
qed

section \<open>What the estimator does to the caller's mask\<close>

text \<open>
  The estimator does not leave a floating-point mask as it was: for the mask (1, 3) over
  two frames the caller's array holds (1/4, 3/4) after the call.
\<close>

theorem mask_unchanged_counterexample:
  "\<not> masks_equal
       (fst (get_power_spectral_density_matrix (array3 [[[1, \<i>], [2, 1]]])
               (Some (FloatMask (array2 [[1, 3]]))) (- 2) (- 2) (- 1)))
       (Some (FloatMask (array2 [[1, 3]])))"
  by (simp add: psd_defs upto.simps masks_equal_def array_equal_def bidx_def)

text \<open>
  Claim C2, as the code has it. A boolean mask is never changed: the estimator normalises
  a floating-point copy of it. A floating-point mask is overwritten in place: whenever the
  call returns a matrix stack, the caller's mask has afterwards its old shape, and each
  entry is the old entry divided by the greater of 1e-10 and the sum of the old entries
  along the time axis.
\<close>

theorem mask_after_call:
  "fst (get_power_spectral_density_matrix X (Some (BoolMask b)) sd srd td) = Some (BoolMask b) \<and>
   (snd (get_power_spectral_density_matrix X (Some (FloatMask m)) sd srd td) = Inr psd \<longrightarrow>
      (\<exists>m' k. fst (get_power_spectral_density_matrix X (Some (FloatMask m)) sd srd td) =
                 Some (FloatMask m') \<and>
              normalize_axis (td mod int (ndim X) - int (ndim X)) (ndim m) = Inr k \<and>
              shape m' = shape m \<and>
              list_all (\<lambda>idx. elem m' idx =
                          elem m idx / max (\<Sum>t\<leftarrow>[0..<shape m ! k]. elem m (idx[k := t])) (1 / 10 ^ 10))
                (indices (shape m))))"
proof (intro conjI impI)
  show "fst (get_power_spectral_density_matrix X (Some (BoolMask b)) sd srd td) = Some (BoolMask b)"
    by (simp add: get_power_spectral_density_matrix_def psd_transposed_def Let_def
        split: sum.splits)
next
  let ?time = "td mod int (ndim X) - int (ndim X)"
  assume ret: "snd (get_power_spectral_density_matrix X (Some (FloatMask m)) sd srd td) = Inr psd"
  then obtain m' where nm: "normalize_mask m ?time = Inr m'" and
    after: "fst (get_power_spectral_density_matrix X (Some (FloatMask m)) sd srd td) = Some (FloatMask m')"
    by (auto simp: get_power_spectral_density_matrix_def psd_transposed_def Let_def
        split: if_splits sum.splits)
  from nm obtain k where k: "normalize_axis ?time (ndim m) = Inr k" and sh: "shape m' = shape m" and
    el: "\<And>idx. valid (shape m) idx \<Longrightarrow>
       elem m' idx = elem m idx / max (\<Sum>t\<leftarrow>[0..<shape m ! k]. elem m (idx[k := t])) (1 / 10 ^ 10)"
    by (rule normalize_mask_Inr) blast
  from el have "list_all (\<lambda>idx. elem m' idx =
                          elem m idx / max (\<Sum>t\<leftarrow>[0..<shape m ! k]. elem m (idx[k := t])) (1 / 10 ^ 10))
                (indices (shape m))"
    by (simp add: list_all_iff set_indices)
  with after k sh show "\<exists>m' k. fst (get_power_spectral_density_matrix X (Some (FloatMask m)) sd srd td) =
                 Some (FloatMask m') \<and>
              normalize_axis ?time (ndim m) = Inr k \<and>
              shape m' = shape m \<and>
              list_all (\<lambda>idx. elem m' idx =
                          elem m idx / max (\<Sum>t\<leftarrow>[0..<shape m ! k]. elem m (idx[k := t])) (1 / 10 ^ 10))
                (indices (shape m))"
    by blast
qed

theorem mask_after_call_witness:
  "fst (get_power_spectral_density_matrix (array3 [[[1, \<i>], [2, 1]]])
          (Some (BoolMask (array2 [[True, False]]))) (- 2) (- 2) (- 1)) =
     Some (BoolMask (array2 [[True, False]])) \<and>
   (\<exists>m'. fst (get_power_spectral_density_matrix (array3 [[[1, \<i>], [2, 1]]])
                 (Some (FloatMask (array2 [[1, 3]]))) (- 2) (- 2) (- 1)) = Some (FloatMask m') \<and>
         shape m' = [1, 2] \<and> elem m' [0, 0] = 1 / 4 \<and> elem m' [0, 1] = 3 / 4)"
proof -
  let ?X = "array3 [[[1, \<i>], [2, 1 :: complex]]]"
  let ?m = "array2 [[1, 3 :: real]]"
  have "\<exists>psd. snd (get_power_spectral_density_matrix ?X (Some (FloatMask ?m)) (- 2) (- 2) (- 1)) = Inr psd"
    by (simp add: psd_defs upto.simps)
  then obtain psd where
    ret: "snd (get_power_spectral_density_matrix ?X (Some (FloatMask ?m)) (- 2) (- 2) (- 1)) = Inr psd"
    by blast
  from mask_after_call [of ?X "array2 [[True, False]]" "- 2" "- 2" "- 1" ?m psd] ret
  obtain m' k where
    b: "fst (get_power_spectral_density_matrix ?X (Some (BoolMask (array2 [[True, False]])))
              (- 2) (- 2) (- 1)) = Some (BoolMask (array2 [[True, False]]))" and
    after: "fst (get_power_spectral_density_matrix ?X (Some (FloatMask ?m)) (- 2) (- 2) (- 1)) =
              Some (FloatMask m')" and
    k: "normalize_axis ((- 1) mod int (ndim ?X) - int (ndim ?X)) (ndim ?m) = Inr k" and
    sh: "shape m' = shape ?m" and
    el: "list_all (\<lambda>idx. elem m' idx =
                          elem ?m idx / max (\<Sum>t\<leftarrow>[0..<shape ?m ! k]. elem ?m (idx[k := t])) (1 / 10 ^ 10))
                (indices (shape ?m))"
    by blast
  from k have k1: "k = 1"
    by (simp add: normalize_axis_def ndim_def array2_def array3_def)
  from el have "elem m' [0, 0] = 1 / 4" "elem m' [0, 1] = 3 / 4"
    unfolding k1 by (simp_all add: array2_def)
  moreover from sh have "shape m' = [1, 2]" by (simp add: array2_def)
  ultimately show ?thesis using b after by blast
qed

section \<open>Input validation of the pipelines\<close>

text \<open>
  Claim C9. Each of the three pipelines raises a ValueError when both the noise mask and
  the target mask are None, whatever the mix, the solvers and the other arguments are;
  no mask is touched.
\<close>

theorem wrappers_reject_missing_masks:
  "gev_wrapper_on_masks geigh geig mix None None normalization = ((None, None), Inl ValueError) \<and>
   pca_wrapper_on_masks eigh mix None None = ((None, None), Inl ValueError) \<and>
   pca_mvdr_wrapper_on_masks eigh solve mix None None regularization = ((None, None), Inl ValueError)"
  by (simp add: gev_wrapper_on_masks_def pca_wrapper_on_masks_def
      pca_mvdr_wrapper_on_masks_def pca_mvdr_vectors_def)

section \<open>The MVDR vector\<close>

lemma broadcast_rev_absorb:
  "broadcast_rev xs ys = Some zs \<Longrightarrow> broadcast_rev xs zs = Some zs \<and> broadcast_rev ys zs = Some zs"
proof (induction xs ys arbitrary: zs rule: broadcast_rev.induct)
  case (1 ys)
  then show ?case by simp
next
  case (2 x xs)
  then show ?case by auto
next
  case (3 x xs y ys)
  then show ?case by (auto split: if_splits)
qed

lemma broadcast_absorb:
  assumes "broadcast s1 s2 = Some s"
  shows "broadcast s1 s = Some s" "broadcast s2 s = Some s"
  using assms broadcast_rev_absorb [of "rev s1" "rev s2" "rev s"]
  by (auto simp: broadcast_def)

lemma broadcast_snoc_one:
  "broadcast (xs @ [x]) (ys @ [Suc 0]) = map_option (\<lambda>zs. zs @ [x]) (broadcast xs ys)"
  by (simp add: broadcast_def option.map_comp comp_def)

lemma einsum_d_d_cases:
  assumes "einsum_d_d a b = Inr r"
  obtains D where "1 \<le> ndim a" "1 \<le> ndim b"
    "broadcast (butlast (shape a)) (butlast (shape b)) = Some (shape r)"
    "broadcast [last (shape a)] [last (shape b)] = Some [D]"
    "\<And>p. elem r p = (\<Sum>d\<leftarrow>[0..<D]. elem a (bidx (shape a) (p @ [d])) * elem b (bidx (shape b) (p @ [d])))"
  using assms
  by (auto simp: einsum_d_d_def Let_def split: if_splits option.splits list.splits)

lemma expand_dims_last:
  assumes "np_expand_dims a (- 1) = Inr r"
  shows "shape r = shape a @ [Suc 0]" "length p = ndim a \<Longrightarrow> elem r (p @ [i]) = elem a p"
  using assms
  by (auto simp: np_expand_dims_def normalize_axis_def ndim_def split: if_splits)

lemma sum_list_divide:
  "(\<Sum>x\<leftarrow>xs. f x * (g x / (c::complex))) = (\<Sum>x\<leftarrow>xs. f x * g x) / c"
  by (induction xs) (simp_all add: add_divide_distrib)

lemma mvdr_vector_normalized:
  assumes den: "einsum_d_d (np_conj a) num = Inr den"
    and ex: "np_expand_dims den (- 1) = Inr den'"
    and w: "np_broadcast2 (/) num den' = Inr w"
    and p: "valid (shape den) p"
    and nz: "elem den p \<noteq> 0"
  shows "\<exists>r. einsum_d_d (np_conj a) w = Inr r \<and> shape r = shape den \<and> elem r p = 1"
proof -
  let ?sa = "shape a" and ?sn = "shape num" and ?pre = "shape den"
  from den obtain D where na: "1 \<le> ndim a" and nn: "1 \<le> ndim num" and
    bpre: "broadcast (butlast ?sa) (butlast ?sn) = Some ?pre" and
    bD: "broadcast [last ?sa] [last ?sn] = Some [D]" and
    eden: "\<And>p. elem den p = (\<Sum>d\<leftarrow>[0..<D]. elem (np_conj a) (bidx ?sa (p @ [d])) *
                                          elem num (bidx ?sn (p @ [d])))"
    by (rule einsum_d_d_cases) simp_all
  from nn have "?sn \<noteq> []" by (auto simp: ndim_def)
  then have sn: "?sn = butlast ?sn @ [last ?sn]" by simp
  have sd': "shape den' = ?pre @ [Suc 0]" using expand_dims_last(1) [OF ex] .
  from w have bw: "broadcast ?sn (shape den') = Some (shape w)" and
    ew: "\<And>idx. elem w idx = elem num (bidx ?sn idx) / elem den' (bidx (shape den') idx)"
    by (auto elim: np_broadcast2_cases)
  have "broadcast (butlast ?sn @ [last ?sn]) (?pre @ [Suc 0]) = Some (?pre @ [last ?sn])"
    by (simp add: broadcast_snoc_one broadcast_absorb(2) [OF bpre])
  with bw sn sd' have sw: "shape w = ?pre @ [last ?sn]" by simp
  let ?r = "tabulate ?pre (\<lambda>p. \<Sum>d\<leftarrow>[0..<D]. elem (np_conj a) (bidx (shape (np_conj a)) (p @ [d])) *
                                       elem w (bidx (shape w) (p @ [d])))"
  from na have ane: "?sa \<noteq> []" by (auto simp: ndim_def)
  have run: "einsum_d_d (np_conj a) w = Inr ?r"
    using ane bD by (simp add: einsum_d_d_def sw ndim_def broadcast_absorb(1) [OF bpre])
  have len: "length p = ndim den" using p by (simp add: valid_length ndim_def)
  have summand: "elem w (bidx (shape w) (p @ [d])) = elem num (bidx ?sn (p @ [d])) / elem den p" for d
  proof -
    have "bidx (shape den') (bidx (shape w) (p @ [d])) = bidx (shape den') (p @ [d])"
      by (rule bidx_bidx_right [OF bw])
    also have "\<dots> = p @ [0]"
      by (simp add: sd' bidx_snoc bidx_valid [OF p])
    finally have "elem den' (bidx (shape den') (bidx (shape w) (p @ [d]))) = elem den p"
      using expand_dims_last(2) [OF ex len] by simp
    then show ?thesis
      by (simp add: ew bidx_bidx_left [OF bw])
  qed
  have "elem ?r p = (\<Sum>d\<leftarrow>[0..<D]. elem (np_conj a) (bidx ?sa (p @ [d])) *
                        (elem num (bidx ?sn (p @ [d])) / elem den p))"
    by (simp add: summand)
  also have "\<dots> = (\<Sum>d\<leftarrow>[0..<D]. elem (np_conj a) (bidx ?sa (p @ [d])) *
                        elem num (bidx ?sn (p @ [d]))) / elem den p"
    by (rule sum_list_divide)
  also have "\<dots> = 1" using nz by (simp add: eden)
  finally have "elem ?r p = 1" .
  with run show ?thesis by (intro exI [of _ ?r]) simp
qed

lemma expand_noise_done: "int k \<le> int (ndim noise) - 1 \<Longrightarrow> expand_noise k noise = noise"
  by (subst expand_noise.simps) simp

lemmas mvdr_defs = get_mvdr_vector_def mvdr_denominator_def mvdr_numerator_def hermitize_def
  np_swapaxes_last2_def np_broadcast2_def np_solve_def einsum_d_d_def np_expand_dims_def
  normalize_axis_def broadcast_def lead2_def ndim_def Let_def mat_at_def vec_at_def entry_def
  array1_def array2_def array3_def bidx_def

text \<open>
  Claim C3. Let \<open>get_mvdr_vector\<close> return the vector \<open>w\<close> for an ATF vector \<open>a\<close> and a
  noise matrix, with any solver. At every bin and batch index where the denominator
  conj(a) . solve(N, a) is not zero, conj(a) . w = 1, the contraction being the one the
  function itself uses (\<open>np.einsum('...d,...d->...')\<close>).
\<close>

theorem mvdr_distortionless:
  assumes w: "get_mvdr_vector solve atf_vector noise_psd_matrix = Inr w"
    and den: "mvdr_denominator solve atf_vector noise_psd_matrix = Inr denominator"
    and p: "p \<in> set (indices (shape denominator))"
    and nz: "elem denominator p \<noteq> 0"
  shows "\<exists>r. einsum_d_d (np_conj atf_vector) w = Inr r \<and> shape r = shape denominator \<and> elem r p = 1"
proof -
  from w den obtain num den' where
    "einsum_d_d (np_conj atf_vector) num = Inr denominator"
    "np_expand_dims denominator (- 1) = Inr den'"
    "np_broadcast2 (/) num den' = Inr w"
    by (auto simp: get_mvdr_vector_def mvdr_denominator_def split: sum.splits)
  moreover from p have "valid (shape denominator) p" by (simp add: set_indices)
  ultimately show ?thesis using nz by (rule mvdr_vector_normalized)
qed

theorem mvdr_distortionless_witness:
  "\<exists>w den r. get_mvdr_vector solve_cramer (array2 [[1, \<i>]]) (array3 [[[2, 0], [0, 1]]]) = Inr w \<and>
     mvdr_denominator solve_cramer (array2 [[1, \<i>]]) (array3 [[[2, 0], [0, 1]]]) = Inr den \<and>
     elem den [0] = 3 / 2 \<and>
     einsum_d_d (np_conj (array2 [[1, \<i>]])) w = Inr r \<and> elem r [0] = 1"
proof -
  let ?a = "array2 [[1, \<i>]]" and ?N = "array3 [[[2, 0], [0, 1 :: complex]]]"
  have ex: "expand_noise (ndim ?a) ?N = ?N"
    by (rule expand_noise_done) (simp add: ndim_def array2_def array3_def)
  have "\<exists>den. mvdr_denominator solve_cramer ?a ?N = Inr den \<and> elem den [0] = 3 / 2 \<and> shape den = [1]"
    unfolding mvdr_denominator_def mvdr_numerator_def ex
    by (simp add: mvdr_defs)
  then obtain den where den: "mvdr_denominator solve_cramer ?a ?N = Inr den"
    "elem den [0] = 3 / 2" "shape den = [1]" by blast
  have "\<exists>w. get_mvdr_vector solve_cramer ?a ?N = Inr w"
    unfolding get_mvdr_vector_def mvdr_denominator_def mvdr_numerator_def ex
    by (simp add: mvdr_defs)
  then obtain w where w: "get_mvdr_vector solve_cramer ?a ?N = Inr w" by blast
  have p: "[0] \<in> set (indices (shape den))" by (simp add: den(3))
  have nz: "elem den [0] \<noteq> 0" by (simp add: den(2))
  from mvdr_distortionless [OF w den(1) p nz] w den show ?thesis by blast
qed

section \<open>The GEV vector and its fallback solver\<close>






section \<open>The PCA-then-MVDR pipeline\<close>

text \<open>
  The pipeline on one bin, two sensors and three frames: the sensor signals are (1, 1, 0)
  and (0, 1, 1), the target mask is (1, 0, 0), the noise mask is (0, 1, 1).
\<close>

lemma example_target_psd:
  "\<exists>after psd. get_power_spectral_density_matrix (np_T (array3 [[[1], [0]], [[1], [1]], [[0], [1]]]))
            (Some (mask_T (FloatMask (array2 [[1], [0], [0]])))) (- 2) (- 2) (- 1) =
            (after, Inr psd) \<and> shape psd = [1, 2, 2] \<and>
       elem psd [0, 0, 0] = 1 \<and> elem psd [0, 0, 1] = 0 \<and> elem psd [0, 1, 0] = 0 \<and> elem psd [0, 1, 1] = 0"
  by (simp add: psd_defs np_T_def mask_T_def upto.simps bidx_def)

lemma example_noise_psd:
  "\<exists>after psd. get_power_spectral_density_matrix (np_T (array3 [[[1], [0]], [[1], [1]], [[0], [1]]]))
            (Some (mask_T (FloatMask (array2 [[0], [1], [1]])))) (- 2) (- 2) (- 1) =
            (after, Inr psd) \<and> shape psd = [1, 2, 2] \<and>
       elem psd [0, 0, 0] = 1 / 2 \<and> elem psd [0, 0, 1] = 1 / 2 \<and> elem psd [0, 1, 0] = 1 / 2 \<and>
       elem psd [0, 1, 1] = 1"
  by (simp add: psd_defs np_T_def mask_T_def upto.simps bidx_def)

lemma example_pca_vector:
  assumes "shape T = [Suc 0, 2, 2]" "elem T [0, 0, 0] = 1" "elem T [0, 0, Suc 0] = 0"
    "elem T [0, Suc 0, 0] = 0" "elem T [0, Suc 0, Suc 0] = 0"
  shows "\<exists>W. get_pca_vector eigh_diag T = Inr W \<and> shape W = [1, 2] \<and>
             elem W [0, 0] = 1 \<and> elem W [0, 1] = 0"
  by (simp add: assms get_pca_vector_def principal_eigenvector_def column_def mat_at_def ndim_def
      lead2_def entry_def Let_def upt_rec_numeral numeral_2_eq_2 numeral_3_eq_3)

lemma example_mvdr_vector:
  assumes "shape W = [Suc 0, 2]" "elem W [0, 0] = 1" "elem W [0, Suc 0] = 0"
    and "shape N = [Suc 0, 2, 2]" "elem N [0, 0, 0] = 1 / 2" "elem N [0, 0, Suc 0] = 1 / 2"
    "elem N [0, Suc 0, 0] = 1 / 2" "elem N [0, Suc 0, Suc 0] = 1"
  shows "\<exists>V. get_mvdr_vector solve_cramer W N = Inr V \<and> shape V = [1, 2] \<and>
             elem V [0, 0] = 1 \<and> elem V [0, 1] = - (1 / 2)"
proof -
  have ex: "expand_noise (ndim W) N = N"
    by (rule expand_noise_done) (simp add: ndim_def assms)
  show ?thesis
    unfolding get_mvdr_vector_def mvdr_denominator_def mvdr_numerator_def ex
    by (simp add: assms mvdr_defs upt_rec_numeral numeral_2_eq_2 numeral_3_eq_3)
qed

lemma example_apply:
  assumes "shape W = [Suc 0, 2]" "elem W [0, 0] = a" "elem W [0, Suc 0] = b"
  shows "\<exists>y. apply_beamforming_vector W (np_T (array3 [[[1], [0]], [[1], [1]], [[0], [1]]])) = Inr y \<and>
             shape y = [1, 3] \<and> elem y [0, 0] = cnj a \<and> elem y [0, 1] = cnj a + cnj b \<and>
             elem y [0, 2] = cnj b"
  by (simp add: assms apply_beamforming_vector_def np_T_def array3_def ndim_def lead2_def
      broadcast_def bidx_def Let_def upt_rec_numeral numeral_2_eq_2 numeral_3_eq_3)

text \<open>
  Claim C1 does not hold of the code. On the input above the PCA vector is (1, 0) and the
  MVDR vector is (1, -1/2). \<open>pca_mvdr_wrapper_on_masks\<close> computes both and then applies the
  PCA vector: it returns (1, 1, 0), whereas applying the MVDR vector, as the claim words
  it, gives (1, 1/2, -1/2).
\<close>

theorem pca_mvdr_wrapper_applies_pca_vector:
  "\<exists>out out'.
     snd (pca_mvdr_wrapper_on_masks eigh_diag solve_cramer
            (array3 [[[1], [0]], [[1], [1]], [[0], [1]]])
            (Some (FloatMask (array2 [[0], [1], [1]])))
            (Some (FloatMask (array2 [[1], [0], [0]]))) None) = Inr out \<and>
     snd (pca_mvdr_as_specified eigh_diag solve_cramer
            (array3 [[[1], [0]], [[1], [1]], [[0], [1]]])
            (Some (FloatMask (array2 [[0], [1], [1]])))
            (Some (FloatMask (array2 [[1], [0], [0]]))) None) = Inr out' \<and>
     shape out = [3, 1] \<and> shape out' = [3, 1] \<and>
     elem out [0, 0] = 1 \<and> elem out [1, 0] = 1 \<and> elem out [2, 0] = 0 \<and>
     elem out' [0, 0] = 1 \<and> elem out' [1, 0] = 1 / 2 \<and> elem out' [2, 0] = - (1 / 2) \<and>
     \<not> array_equal out out'"
proof -
  let ?mix = "array3 [[[1], [0]], [[1], [1]], [[0], [1 :: complex]]]"
  let ?nm = "FloatMask (array2 [[0], [1], [1]])" and ?tm = "FloatMask (array2 [[1], [0], [0]])"
  from example_target_psd obtain ta T where
    T: "get_power_spectral_density_matrix (np_T ?mix) (Some (mask_T ?tm)) (- 2) (- 2) (- 1) = (ta, Inr T)"
    "shape T = [1, 2, 2]" "elem T [0, 0, 0] = 1" "elem T [0, 0, 1] = 0" "elem T [0, 1, 0] = 0"
    "elem T [0, 1, 1] = 0"
    by blast
  from example_noise_psd obtain na N where
    N: "get_power_spectral_density_matrix (np_T ?mix) (Some (mask_T ?nm)) (- 2) (- 2) (- 1) = (na, Inr N)"
    "shape N = [1, 2, 2]" "elem N [0, 0, 0] = 1 / 2" "elem N [0, 0, 1] = 1 / 2" "elem N [0, 1, 0] = 1 / 2"
    "elem N [0, 1, 1] = 1"
    by blast
  from example_pca_vector [of T] T obtain W where
    W: "get_pca_vector eigh_diag T = Inr W" "shape W = [1, 2]" "elem W [0, 0] = 1" "elem W [0, 1] = 0"
    by auto
  from example_mvdr_vector [of W N] W N obtain V where
    V: "get_mvdr_vector solve_cramer W N = Inr V" "shape V = [1, 2]" "elem V [0, 0] = 1"
    "elem V [0, 1] = - (1 / 2)"
    by auto
  from example_apply [of W 1 0] W obtain y where
    y: "apply_beamforming_vector W (np_T ?mix) = Inr y" "shape y = [1, 3]"
    "elem y [0, 0] = 1" "elem y [0, 1] = 1" "elem y [0, 2] = 0"
    by auto
  from example_apply [of V 1 "- (1 / 2)"] V obtain y' where
    y': "apply_beamforming_vector V (np_T ?mix) = Inr y'" "shape y' = [1, 3]"
    "elem y' [0, 0] = 1" "elem y' [0, 1] = 1 / 2" "elem y' [0, 2] = - (1 / 2)"
    by auto
  have rank: "ndim (np_T ?mix) = 3"
    by (simp add: ndim_def np_T_def array3_def)
  have vec: "snd (pca_mvdr_vectors eigh_diag solve_cramer ?mix (Some ?nm) (Some ?tm) None) =
             Inr (np_T ?mix, W, V)"
    by (simp add: pca_mvdr_vectors_def Let_def rank T(1) N(1) W(1) V(1))
  from vec obtain masks where full:
    "pca_mvdr_vectors eigh_diag solve_cramer ?mix (Some ?nm) (Some ?tm) None =
       (masks, Inr (np_T ?mix, W, V))"
    by (cases "pca_mvdr_vectors eigh_diag solve_cramer ?mix (Some ?nm) (Some ?tm) None") auto
  have out: "snd (pca_mvdr_wrapper_on_masks eigh_diag solve_cramer ?mix (Some ?nm) (Some ?tm) None) =
             Inr (np_T y)"
    by (simp add: pca_mvdr_wrapper_on_masks_def full y(1))
  have out': "snd (pca_mvdr_as_specified eigh_diag solve_cramer ?mix (Some ?nm) (Some ?tm) None) =
             Inr (np_T y')"
    by (simp add: pca_mvdr_as_specified_def full y'(1))
  have neq: "\<not> array_equal (np_T y) (np_T y')"
  proof
    assume "array_equal (np_T y) (np_T y')"
    then have "\<forall>idx \<in> set (indices (shape (np_T y))). elem (np_T y) idx = elem (np_T y') idx"
      by (simp add: array_equal_def list_all_iff)
    moreover have "[1, 0] \<in> set (indices (shape (np_T y)))"
      by (simp add: set_indices np_T_def y(2))
    ultimately have "elem (np_T y) [1, 0] = elem (np_T y') [1, 0]" by blast
    then show False using y(4) y'(4) by (simp add: np_T_def)
  qed
  have "shape (np_T y) = [3, 1]" "shape (np_T y') = [3, 1]"
    "elem (np_T y) [0, 0] = 1" "elem (np_T y) [1, 0] = 1" "elem (np_T y) [2, 0] = 0"
    "elem (np_T y') [0, 0] = 1" "elem (np_T y') [1, 0] = 1 / 2" "elem (np_T y') [2, 0] = - (1 / 2)"
    using y y' by (simp_all add: np_T_def)
  with out out' neq show ?thesis by blast
qed

end
